theory Spec2Isabelle
  imports Complex_Main
begin

section \<open>Values exchanged with the remote side\<close>

text \<open>
  An inbound frame is a text frame; \<^verbatim>\<open>JSON.parse\<close> turns it into a JavaScript value.
  The values \<^verbatim>\<open>JSON.parse\<close> can produce are modelled by \<open>json\<close>; a JavaScript
  \<^verbatim>\<open>undefined\<close> (an absent property, an omitted argument) is \<open>None\<close> of
  \<open>json option\<close>. Numbers are the reals (every finite double is one, and \<^verbatim>\<open>===\<close>
  on finite doubles is equality of their values). An object is the list of its own
  properties; a property read takes the first entry of that name.
\<close>

datatype json =
    JNull
  | JBool bool
  | JNum real
  | JStr string
  | JArr "json list"
  | JObj "(string \<times> json) list"

type_synonym jsval = "json option"

text \<open>ECMAScript ToBoolean, as used by \<^verbatim>\<open>if (packet)\<close> and \<^verbatim>\<open>!type\<close>.\<close>

fun truthy :: "jsval \<Rightarrow> bool" where
  "truthy None = False"
| "truthy (Some JNull) = False"
| "truthy (Some (JBool b)) = b"
| "truthy (Some (JNum x)) = (x \<noteq> 0)"
| "truthy (Some (JStr s)) = (s \<noteq> [])"
| "truthy (Some (JArr xs)) = True"
| "truthy (Some (JObj kvs)) = True"

text \<open>
  A property read \<^verbatim>\<open>v.k\<close> on a value that is neither \<^verbatim>\<open>null\<close> nor
  \<^verbatim>\<open>undefined\<close>, for the property names the client reads (\<^verbatim>\<open>t\<close>, \<^verbatim>\<open>i\<close>,
  \<^verbatim>\<open>n\<close>, \<^verbatim>\<open>d\<close>, \<^verbatim>\<open>status\<close>): none of them exists on the prototype of a
  string, number, boolean or array, so only an object can answer.
\<close>

fun get_prop :: "json \<Rightarrow> string \<Rightarrow> jsval" where
  "get_prop (JObj kvs) k = map_of kvs k"
| "get_prop _ k = None"

datatype PacketType = Call | Watch | Callback

fun tag :: "PacketType \<Rightarrow> string" where
  "tag Call = ''call''"
| "tag Watch = ''watch''"
| "tag Callback = ''callback''"

text \<open>The outbound envelope, \<^verbatim>\<open>PacketData\<close> of types.ts (fields s, n, t, d, i).\<close>

record PacketData =
  pd_s :: "string option"
  pd_n :: "string option"
  pd_t :: PacketType
  pd_d :: jsval
  pd_i :: string

datatype js_error =
    TypeError
  | InvalidPacket
  | ResponseCode json
  | NotOpen
  | Other string

text \<open>
  The settlement of the promise returned by \<^verbatim>\<open>send\<close>. \<open>ResponseCode st\<close> stands for
  \<^verbatim>\<open>new Error(`Response code: ${data.status}`)\<close>, \<open>InvalidPacket\<close> for
  \<^verbatim>\<open>new Error('Invalid packet')\<close>, \<open>TypeError\<close> for the error of reading a property
  of \<^verbatim>\<open>undefined\<close> or \<^verbatim>\<open>null\<close>, \<open>NotOpen\<close> for the error \<^verbatim>\<open>ws\<close> throws when
  \<^verbatim>\<open>send\<close> is called on a socket that is still connecting.
\<close>

datatype settlement = Pending | Resolved jsval | Rejected js_error

section \<open>The handler registry\<close>

text \<open>
  A registered function is either the closure that \<^verbatim>\<open>send\<close> builds around the
  \<^verbatim>\<open>resolve\<close> and \<^verbatim>\<open>reject\<close> of its promise (\<open>Settle p\<close>, for promise number
  \<open>p\<close>), or a function the caller passed to \<^verbatim>\<open>registerHandler\<close> (\<open>User u\<close>). The
  body of a caller's function is not part of the client: it is known by a label, and the
  environment says whether it returns or throws on a packet. It is taken not to call
  back into the session while it runs.
\<close>

datatype handler_fn = Settle nat | User nat

record Handler =
  name :: string
  type :: PacketType
  handler :: handler_fn

datatype event = EvError js_error | EvClose int | EvConnect

text \<open>
  What an observer of the session sees, in order: an event handed to \<^verbatim>\<open>emit\<close>, a
  registered function being called with a packet, a timeout being scheduled with its
  delay, the \<^verbatim>\<open>open\<close> event of a socket resuming the \<^verbatim>\<open>connect\<close> that waits for
  it (\<open>Opened k n\<close>: invocation \<open>k\<close> of \<^verbatim>\<open>connect\<close>, socket \<open>n\<close>), and \<^verbatim>\<open>send\<close>
  creating a promise for an envelope. An \<^verbatim>\<open>error\<close> event that no listener takes is
  not observed: it is thrown.
\<close>

datatype obs =
    Emitted event
  | Invoked handler_fn json
  | Scheduled real
  | Opened nat nat
  | Requested nat PacketData

record Options =
  opt_name :: "string option"
  host :: string
  port :: nat
  path :: string
  token :: "string option"
  autoReconnect :: bool
  reconnectInterval :: real
  reconnectIntervalMultiplier :: real

text \<open>
  A socket of the \<^verbatim>\<open>ws\<close> library, as far as the client depends on it: what it was
  created with, its \<^verbatim>\<open>readyState\<close>, the frames handed to \<^verbatim>\<open>send\<close>, and whether
  \<^verbatim>\<open>close\<close> was called. \<open>creator\<close> is the invocation of \<^verbatim>\<open>connect\<close> that made it.
\<close>

datatype ready = CONNECTING | OPEN | CLOSING | CLOSED

record Socket =
  url :: string
  authorization :: string
  readyState :: ready
  sent :: "PacketData list"
  close_called :: bool
  creator :: nat

text \<open>
  A suspended invocation of the asynchronous \<^verbatim>\<open>connect\<close>: waiting for
  \<^verbatim>\<open>getServiceToken\<close>, for the \<^verbatim>\<open>open\<close> event of its socket, or for the
  promise of its login call.
\<close>

datatype task = AwaitToken | AwaitOpen nat | AwaitLogin nat | Done | Failed js_error

text \<open>
  The fields of \<^verbatim>\<open>Client\<close> (\<open>id_s\<close> is the field \<^verbatim>\<open>id\<close>; \<open>socket\<close> is
  \<open>None\<close> while the field is still \<^verbatim>\<open>undefined\<close>) and, of the event emitter it
  extends, the number of listeners the caller has attached to \<^verbatim>\<open>error\<close>; followed by
  what lives outside the object: the sockets created so far, the promises handed out, the
  pending timeouts, the suspended \<^verbatim>\<open>connect\<close> invocations and the observations made.
\<close>

record Client =
  id_s :: string
  opts :: Options
  socket :: "nat option"
  handlers :: "Handler list"
  callbacks :: nat
  reconnectTries :: nat
  destroyed :: bool
  error_listeners :: nat
  sockets :: "Socket list"
  promises :: "settlement list"
  timers :: "real list"
  tasks :: "task list"
  trace :: "obs list"

text \<open>
  What the client calls but does not define: \<^verbatim>\<open>JSON.parse\<close> (\<open>None\<close> when it throws),
  \<^verbatim>\<open>String(v)\<close> on a value that is not a string, and the caller's handler functions
  (\<open>None\<close> when the function returns, \<open>Some e\<close> when it throws \<open>e\<close>).
\<close>

record Env =
  JSON_parse :: "string \<Rightarrow> json option"
  ToString :: "jsval \<Rightarrow> string"
  user_fn :: "nat \<Rightarrow> json \<Rightarrow> js_error option"

datatype ret = Return Client | Throw js_error Client

fun state_of :: "ret \<Rightarrow> Client" where
  "state_of (Return s) = s"
| "state_of (Throw e s) = s"

fun thrown :: "ret \<Rightarrow> js_error option" where
  "thrown (Return s) = None"
| "thrown (Throw e s) = Some e"

section \<open>Correlation ids\<close>

text \<open>
  \<^verbatim>\<open>`${this.id}-${this.callbacks++}`\<close>: the counter is a non-negative integer, which
  the template prints in decimal. (The counter is a JavaScript number; it is exact, and
  printed without an exponent, on every value a session can count up to.)
\<close>

definition digit :: "nat \<Rightarrow> char" where
  "digit n = ''0123456789'' ! n"

function dec :: "nat \<Rightarrow> string" where
  "dec n = (if n < 10 then [digit n] else dec (n div 10) @ [digit (n mod 10)])"
  by pat_completeness auto
termination
  by (relation "measure (\<lambda>n. n)") auto

declare dec.simps [simp del]

definition correlation_id :: "string \<Rightarrow> nat \<Rightarrow> string" where
  "correlation_id sid k = sid @ ''-'' @ dec k"

section \<open>Events, timers, promises\<close>

text \<open>
  \<^verbatim>\<open>emit\<close> is inherited from Node's \<^verbatim>\<open>EventEmitter\<close>, which the client extends. The
  client attaches no listener to itself. An \<^verbatim>\<open>error\<close> event emitted while no listener
  is attached to \<^verbatim>\<open>error\<close> is thrown by \<^verbatim>\<open>emit\<close>; every other event goes to the
  listeners there are, which are taken to return. \<^verbatim>\<open>setTimeout\<close> adds a pending timeout.
\<close>

definition observe :: "obs \<Rightarrow> Client \<Rightarrow> Client" where
  "observe x s = s\<lparr>trace := trace s @ [x]\<rparr>"

definition emit :: "event \<Rightarrow> Client \<Rightarrow> ret" where
  "emit ev s =
     (case ev of
        EvError e \<Rightarrow>
          if error_listeners s = 0 then Throw e s else Return (observe (Emitted ev) s)
      | _ \<Rightarrow> Return (observe (Emitted ev) s))"

text \<open>\<^verbatim>\<open>on('error', fn)\<close> and \<^verbatim>\<open>off('error', fn)\<close>, called by the owner of the session.\<close>

definition on_error_listener :: "Client \<Rightarrow> Client" where
  "on_error_listener s = s\<lparr>error_listeners := Suc (error_listeners s)\<rparr>"

definition off_error_listener :: "Client \<Rightarrow> Client" where
  "off_error_listener s = s\<lparr>error_listeners := error_listeners s - 1\<rparr>"

definition setTimeout :: "real \<Rightarrow> Client \<Rightarrow> Client" where
  "setTimeout delay s = observe (Scheduled delay) (s\<lparr>timers := timers s @ [delay]\<rparr>)"

text \<open>Settling a promise that is already settled does nothing.\<close>

definition settle :: "nat \<Rightarrow> settlement \<Rightarrow> Client \<Rightarrow> Client" where
  "settle p v s =
     (if p < length (promises s) \<and> promises s ! p = Pending
      then s\<lparr>promises := (promises s)[p := v]\<rparr> else s)"

definition resolve :: "nat \<Rightarrow> jsval \<Rightarrow> Client \<Rightarrow> Client" where
  "resolve p v s = settle p (Resolved v) s"

definition reject :: "nat \<Rightarrow> js_error \<Rightarrow> Client \<Rightarrow> Client" where
  "reject p e s = settle p (Rejected e) s"

section \<open>Client: registry and dispatch\<close>

text \<open>
  \<^verbatim>\<open>handler.name === name && (!type || handler.type === type)\<close>, where \<open>name\<close> and
  \<open>type\<close> are whatever the inbound packet carried.
\<close>

definition matches :: "jsval \<Rightarrow> jsval \<Rightarrow> Handler \<Rightarrow> bool" where
  "matches nm ty h =
     (Some (JStr (name h)) = nm \<and> (\<not> truthy ty \<or> Some (JStr (tag (type h))) = ty))"

definition findHandler :: "Handler list \<Rightarrow> jsval \<Rightarrow> jsval \<Rightarrow> Handler option" where
  "findHandler hs nm ty = find (matches nm ty) hs"

text \<open>\<^verbatim>\<open>Array.prototype.indexOf\<close>: the first position of the element, or -1.\<close>

fun indexOf :: "'a list \<Rightarrow> 'a \<Rightarrow> int" where
  "indexOf [] x = - 1"
| "indexOf (y # ys) x =
     (if y = x then 0 else (let i = indexOf ys x in if i = - 1 then - 1 else i + 1))"

text \<open>\<^verbatim>\<open>xs.splice(i, 1)\<close> for \<open>i\<close> in range.\<close>

definition splice_at :: "'a list \<Rightarrow> nat \<Rightarrow> 'a list" where
  "splice_at xs i = take i xs @ drop (Suc i) xs"

text \<open>\<^verbatim>\<open>String(v)\<close>: a string is itself, anything else is converted.\<close>

definition String :: "Env \<Rightarrow> jsval \<Rightarrow> string" where
  "String E v = (case v of Some (JStr x) \<Rightarrow> x | _ \<Rightarrow> ToString E v)"

text \<open>
  The closure registered by \<^verbatim>\<open>send\<close>, applied to a packet whose \<^verbatim>\<open>data\<close> is
  \<open>pkt\<close>. Reading \<^verbatim>\<open>data.status\<close> when \<^verbatim>\<open>packet.data.d\<close> is \<^verbatim>\<open>undefined\<close> or
  \<^verbatim>\<open>null\<close> throws.
\<close>

definition settle_handler :: "nat \<Rightarrow> json \<Rightarrow> Client \<Rightarrow> ret" where
  "settle_handler p pkt s =
     (case get_prop pkt ''d'' of
        None \<Rightarrow> Throw TypeError s
      | Some JNull \<Rightarrow> Throw TypeError s
      | Some d \<Rightarrow>
          (case get_prop d ''status'' of
             Some st \<Rightarrow>
               if st = JNum 200 then Return (resolve p (Some d) s)
               else Return (reject p (ResponseCode st) s)
           | None \<Rightarrow> Return (resolve p (Some d) s)))"

text \<open>\<^verbatim>\<open>handler.handler(packet)\<close>.\<close>

definition invoke :: "Env \<Rightarrow> Handler \<Rightarrow> json \<Rightarrow> Client \<Rightarrow> ret" where
  "invoke E h pkt s =
     (let s1 = observe (Invoked (handler h) pkt) s in
      case handler h of
        Settle p \<Rightarrow> settle_handler p pkt s1
      | User u \<Rightarrow> (case user_fn E u pkt of None \<Rightarrow> Return s1 | Some e \<Rightarrow> Throw e s1))"

text \<open>\<^verbatim>\<open>Client.handle\<close>; \<open>pkt\<close> is \<^verbatim>\<open>packet.data\<close>, a truthy value.\<close>

definition handle :: "Env \<Rightarrow> json \<Rightarrow> Client \<Rightarrow> ret" where
  "handle E pkt s =
     (let (h, index) =
        (if get_prop pkt ''t'' = Some (JStr ''callback'')
         then (let h = findHandler (handlers s) (Some (JStr (String E (get_prop pkt ''i''))))
                         (Some (JStr ''callback''))
               in (h, case h of None \<Rightarrow> - 1 | Some x \<Rightarrow> indexOf (handlers s) x))
         else (findHandler (handlers s) (get_prop pkt ''n'') (get_prop pkt ''t''), - 1))
      in case h of
           None \<Rightarrow> emit (EvError InvalidPacket) s
         | Some x \<Rightarrow>
             (case invoke E x pkt s of
                Throw e s1 \<Rightarrow> Throw e s1
              | Return s1 \<Rightarrow>
                  Return (if index > - 1
                          then s1\<lparr>handlers := splice_at (handlers s1) (nat index)\<rparr>
                          else s1)))"

text \<open>
  \<^verbatim>\<open>Client.write\<close>, under the name \<open>write_pd\<close> since \<^verbatim>\<open>write\<close> is a command of
  Isar: \<^verbatim>\<open>this.socket.send\<close> on an undefined socket throws, and so does the \<^verbatim>\<open>send\<close>
  of a socket that is still connecting; otherwise the frame is handed to the socket (which
  drops it when it is closing or closed).
\<close>

definition socket_send :: "PacketData \<Rightarrow> Socket \<Rightarrow> Socket" where
  "socket_send pd k = k\<lparr>sent := sent k @ [pd]\<rparr>"

definition write_pd :: "PacketData \<Rightarrow> Client \<Rightarrow> ret" where
  "write_pd pd s =
     (case socket s of
        None \<Rightarrow> Throw TypeError s
      | Some k \<Rightarrow>
          if readyState (sockets s ! k) = CONNECTING then Throw NotOpen s
          else Return (s\<lparr>sockets := (sockets s)[k := socket_send pd (sockets s ! k)]\<rparr>))"

text \<open>
  \<^verbatim>\<open>path.split('/')\<close>, then \<^verbatim>\<open>parts.shift()\<close> and \<^verbatim>\<open>parts.join('/')\<close>: the text
  before the first slash, and the text after it.
\<close>

definition service_of :: "string \<Rightarrow> string" where
  "service_of p = takeWhile (\<lambda>c. c \<noteq> CHR ''/'') p"

definition action_of :: "string \<Rightarrow> string" where
  "action_of p = (case dropWhile (\<lambda>c. c \<noteq> CHR ''/'') p of [] \<Rightarrow> [] | c # r \<Rightarrow> r)"

text \<open>
  \<^verbatim>\<open>Client.send\<close>. The result is the number of the new promise. An exception of the
  executor (that of \<^verbatim>\<open>write\<close>) rejects the promise; the handler stays registered.
\<close>

definition send :: "PacketType \<Rightarrow> string \<Rightarrow> jsval \<Rightarrow> Client \<Rightarrow> nat \<times> Client" where
  "send ty p data s =
     (let pr = length (promises s);
          s0 = s\<lparr>promises := promises s @ [Pending]\<rparr>;
          i = correlation_id (id_s s0) (callbacks s0);
          s1 = s0\<lparr>callbacks := callbacks s0 + 1\<rparr>;
          s2 = s1\<lparr>handlers := handlers s1 @ [\<lparr>name = i, type = Callback, handler = Settle pr\<rparr>]\<rparr>;
          pd = \<lparr>pd_s = Some (service_of p), pd_n = Some (action_of p), pd_t = ty,
                pd_d = data, pd_i = i\<rparr>;
          s3 = observe (Requested pr pd) s2
      in case write_pd pd s3 of
           Return s4 \<Rightarrow> (pr, s4)
         | Throw e s4 \<Rightarrow> (pr, reject pr e s4))"

definition call :: "string \<Rightarrow> jsval \<Rightarrow> Client \<Rightarrow> nat \<times> Client" where
  "call p data s = send Call p data s"

definition watch :: "string \<Rightarrow> jsval \<Rightarrow> Client \<Rightarrow> nat \<times> Client" where
  "watch p data s = send Watch p data s"

definition registerHandler :: "string \<Rightarrow> PacketType \<Rightarrow> nat \<Rightarrow> Client \<Rightarrow> Client" where
  "registerHandler nm ty u s =
     s\<lparr>handlers := handlers s @ [\<lparr>name = nm, type = ty, handler = User u\<rparr>]\<rparr>"

definition registerMethod :: "string \<Rightarrow> nat \<Rightarrow> Client \<Rightarrow> Client" where
  "registerMethod nm u s = registerHandler nm Call u s"

definition registerWatcher :: "string \<Rightarrow> nat \<Rightarrow> Client \<Rightarrow> Client" where
  "registerWatcher nm u s = registerHandler nm Watch u s"

section \<open>Client: construction\<close>

text \<open>
  The options a caller passes; \<open>None\<close> is a key left out. The constructor spreads them
  over \<^verbatim>\<open>DEFAULT_OPTIONS\<close>.
\<close>

record UserOptions =
  u_name :: "string option"
  u_host :: "string option"
  u_port :: "nat option"
  u_path :: "string option"
  u_token :: "string option"
  u_autoReconnect :: "bool option"
  u_reconnectInterval :: "real option"
  u_reconnectIntervalMultiplier :: "real option"

definition DEFAULT_HOST :: string where
  "DEFAULT_HOST = ''127.0.0.1''"

definition DEFAULT_PORT :: nat where
  "DEFAULT_PORT = 9998"

definition or_default :: "'a option \<Rightarrow> 'a \<Rightarrow> 'a" where
  "or_default v d = (case v of None \<Rightarrow> d | Some x \<Rightarrow> x)"

definition merge_options :: "UserOptions \<Rightarrow> Options" where
  "merge_options u =
     \<lparr>opt_name = u_name u,
      host = or_default (u_host u) DEFAULT_HOST,
      port = or_default (u_port u) DEFAULT_PORT,
      path = or_default (u_path u) ''/'',
      token = u_token u,
      autoReconnect = or_default (u_autoReconnect u) True,
      reconnectInterval = or_default (u_reconnectInterval u) 2000,
      reconnectIntervalMultiplier = or_default (u_reconnectIntervalMultiplier u) 1\<rparr>"

text \<open>
  The constructor; \<open>sid\<close> is the value \<^verbatim>\<open>v4()\<close> returned. The HTTP client that
  \<^verbatim>\<open>initAxios\<close> builds takes no part in the session and is left out.
\<close>

definition new_Client :: "string \<Rightarrow> UserOptions \<Rightarrow> Client" where
  "new_Client sid u =
     \<lparr>id_s = sid, opts = merge_options u, socket = None, handlers = [], callbacks = 0,
      reconnectTries = 0, destroyed = False, error_listeners = 0, sockets = [],
      promises = [], timers = [], tasks = [], trace = []\<rparr>"

definition wsProtocol :: "Client \<Rightarrow> string" where
  "wsProtocol s = (if port (opts s) = 443 then ''wss'' else ''ws'')"

definition wsEndpoint :: "Client \<Rightarrow> string" where
  "wsEndpoint s =
     wsProtocol s @ ''://'' @ host (opts s) @ '':'' @ dec (port (opts s)) @ path (opts s)"

section \<open>Client: the listeners of registerEvents\<close>

definition parseJSON :: "Env \<Rightarrow> string \<Rightarrow> json \<Rightarrow> json" where
  "parseJSON E str def = (case JSON_parse E str of Some res \<Rightarrow> res | None \<Rightarrow> def)"

definition on_message :: "Env \<Rightarrow> string \<Rightarrow> Client \<Rightarrow> ret" where
  "on_message E data s =
     (let packet = parseJSON E data JNull in
      if truthy (Some packet) then handle E packet s else Return s)"

definition on_error :: "js_error \<Rightarrow> Client \<Rightarrow> ret" where
  "on_error err s = emit (EvError err) s"

text \<open>
  The \<^verbatim>\<open>close\<close> listener: the counter is incremented before the delay is computed
  (\<^verbatim>\<open>++this.reconnectTries * interval * multiplier\<close>).
\<close>

definition on_close :: "int \<Rightarrow> Client \<Rightarrow> ret" where
  "on_close code s =
     (case emit (EvClose code) s of
        Throw e s1 \<Rightarrow> Throw e s1
      | Return s1 \<Rightarrow>
          Return
            (if autoReconnect (opts s1)
             then (let s2 = s1\<lparr>reconnectTries := reconnectTries s1 + 1\<rparr> in
                   setTimeout (real (reconnectTries s2) * reconnectInterval (opts s2)
                                 * reconnectIntervalMultiplier (opts s2)) s2)
             else s1))"

section \<open>Client: connect and destroy\<close>

text \<open>
  \<^verbatim>\<open>connect\<close> is asynchronous: it runs to its first \<^verbatim>\<open>await\<close> and is resumed
  later, each part running to completion. The parts are: from the start to the await of
  \<^verbatim>\<open>getServiceToken\<close> (taken only when the token is falsy); from there to the await
  of the \<^verbatim>\<open>open\<close> event; the login call; the two statements after it.
\<close>

definition connect_socket :: "nat \<Rightarrow> Client \<Rightarrow> Client" where
  "connect_socket k s =
     (let n = length (sockets s);
          ws = \<lparr>url = wsEndpoint s,
                authorization = ''Bearer '' @ or_default (token (opts s)) [],
                readyState = CONNECTING, sent = [], close_called = False, creator = k\<rparr>
      in s\<lparr>sockets := sockets s @ [ws], socket := Some n, tasks := (tasks s)[k := AwaitOpen n]\<rparr>)"

definition connect_begin :: "Client \<Rightarrow> Client" where
  "connect_begin s =
     (let k = length (tasks s);
          s1 = (if host (opts s) = [] then s\<lparr>opts := (opts s)\<lparr>host := DEFAULT_HOST\<rparr>\<rparr> else s);
          s2 = (if port (opts s1) = 0 then s1\<lparr>opts := (opts s1)\<lparr>port := DEFAULT_PORT\<rparr>\<rparr> else s1);
          s3 = s2\<lparr>tasks := tasks s2 @ [AwaitToken]\<rparr>
      in if token (opts s3) = None \<or> token (opts s3) = Some [] then s3
         else connect_socket k s3)"

text \<open>\<open>r\<close> is the outcome of \<^verbatim>\<open>getServiceToken\<close>: a token, or \<open>None\<close> for a failure.\<close>

definition connect_token :: "nat \<Rightarrow> string option \<Rightarrow> Client \<Rightarrow> Client" where
  "connect_token k r s =
     (if k < length (tasks s) \<and> tasks s ! k = AwaitToken
      then connect_socket k (s\<lparr>opts := (opts s)\<lparr>token := Some (or_default r [])\<rparr>\<rparr>)
      else s)"

text \<open>The payload \<^verbatim>\<open>{ s: this.opts.name }\<close>, as it is serialised.\<close>

definition login_payload :: "Client \<Rightarrow> json" where
  "login_payload s = JObj (case opt_name (opts s) of None \<Rightarrow> [] | Some nm \<Rightarrow> [(''s'', JStr nm)])"

text \<open>
  The socket \<open>n\<close> that invocation \<open>k\<close> of \<^verbatim>\<open>connect\<close> waits for becomes open and emits
  \<^verbatim>\<open>open\<close>; the invocation goes on with its login call.
\<close>

definition socket_opened :: "nat \<Rightarrow> Client \<Rightarrow> Client" where
  "socket_opened n s = s\<lparr>sockets := (sockets s)[n := (sockets s ! n)\<lparr>readyState := OPEN\<rparr>]\<rparr>"

definition connect_open :: "nat \<Rightarrow> Client \<Rightarrow> Client" where
  "connect_open k s =
     (case (if k < length (tasks s) then tasks s ! k else Done) of
        AwaitOpen n \<Rightarrow>
          (let (p, s1) = call ''auth/login'' (Some (login_payload s))
                           (observe (Opened k n) (socket_opened n s))
           in s1\<lparr>tasks := (tasks s1)[k := AwaitLogin p]\<rparr>)
      | _ \<Rightarrow> s)"

definition connect_login :: "nat \<Rightarrow> Client \<Rightarrow> Client" where
  "connect_login k s =
     (case (if k < length (tasks s) then tasks s ! k else Done) of
        AwaitLogin p \<Rightarrow>
          (case (if p < length (promises s) then promises s ! p else Pending) of
             Pending \<Rightarrow> s
           | Resolved v \<Rightarrow>
               (case emit EvConnect (s\<lparr>reconnectTries := 0\<rparr>) of
                  Return s1 \<Rightarrow> s1\<lparr>tasks := (tasks s1)[k := Done]\<rparr>
                | Throw e s1 \<Rightarrow> s1\<lparr>tasks := (tasks s1)[k := Failed e]\<rparr>)
           | Rejected e \<Rightarrow> s\<lparr>tasks := (tasks s)[k := Failed e]\<rparr>)
      | _ \<Rightarrow> s)"

text \<open>The \<^verbatim>\<open>close\<close> of a socket: it starts closing unless it is closed already.\<close>

definition socket_close :: "Socket \<Rightarrow> Socket" where
  "socket_close k =
     k\<lparr>close_called := True,
       readyState := (if readyState k = CLOSED then CLOSED else CLOSING)\<rparr>"

definition destroy :: "Client \<Rightarrow> ret" where
  "destroy s =
     (case socket s of
        None \<Rightarrow> Throw TypeError s
      | Some k \<Rightarrow>
          Return (s\<lparr>sockets := (sockets s)[k := socket_close (sockets s ! k)],
                    destroyed := True\<rparr>))"

text \<open>The callback given to \<^verbatim>\<open>setTimeout\<close>; timer \<open>j\<close> fires and is gone.\<close>

definition timer_fire :: "nat \<Rightarrow> Client \<Rightarrow> Client" where
  "timer_fire j s =
     (if j < length (timers s)
      then (let s1 = s\<lparr>timers := splice_at (timers s) j\<rparr> in
            if \<not> destroyed s1 then connect_begin s1 else s1)
      else s)"

section \<open>The session as a reactive system\<close>

text \<open>
  Everything that can happen to a session: a call of its public surface, an event of one
  of its sockets (only a socket that exists has listeners), a timer that fires, and the
  resumption of a suspended \<^verbatim>\<open>connect\<close>. An exception leaves to whoever called; the
  session keeps the state it had when the exception was thrown.

  \<open>TokenSettled k r\<close>, \<open>SockOpen k\<close> and \<open>LoginSettled k\<close> resume the \<open>k\<close>-th
  invocation of \<^verbatim>\<open>connect\<close>: \<^verbatim>\<open>getServiceToken\<close> has settled with \<open>r\<close>, the socket
  it created has reported \<^verbatim>\<open>open\<close>, the promise of its login call has settled.
  \<open>SockMessage n\<close>, \<open>SockError n\<close> and \<open>SockClose n\<close> are the events of the \<open>n\<close>-th
  socket (which is closed when it emits \<^verbatim>\<open>close\<close>), \<open>TimerFire j\<close> is the \<open>j\<close>-th pending
  timeout firing. The events may come in any order.
\<close>

definition socket_closed :: "nat \<Rightarrow> Client \<Rightarrow> Client" where
  "socket_closed n s = s\<lparr>sockets := (sockets s)[n := (sockets s ! n)\<lparr>readyState := CLOSED\<rparr>]\<rparr>"

datatype input =
    DoConnect
  | TokenSettled nat "string option"
  | SockOpen nat
  | LoginSettled nat
  | SockMessage nat string
  | SockError nat js_error
  | SockClose nat int
  | TimerFire nat
  | DoDestroy
  | DoSend PacketType string jsval
  | DoRegister string PacketType nat
  | DoOnError
  | DoOffError

fun step :: "Env \<Rightarrow> input \<Rightarrow> Client \<Rightarrow> Client" where
  "step E DoConnect s = connect_begin s"
| "step E (TokenSettled k r) s = connect_token k r s"
| "step E (SockOpen k) s = connect_open k s"
| "step E (LoginSettled k) s = connect_login k s"
| "step E (SockMessage n data) s =
     (if n < length (sockets s) then state_of (on_message E data s) else s)"
| "step E (SockError n err) s =
     (if n < length (sockets s) then state_of (on_error err s) else s)"
| "step E (SockClose n code) s =
     (if n < length (sockets s) then state_of (on_close code (socket_closed n s)) else s)"
| "step E (TimerFire j) s = timer_fire j s"
| "step E DoDestroy s = state_of (destroy s)"
| "step E (DoSend ty p data) s = snd (send ty p data s)"
| "step E (DoRegister nm ty u) s = registerHandler nm ty u s"
| "step E DoOnError s = on_error_listener s"
| "step E DoOffError s = off_error_listener s"

fun run :: "Env \<Rightarrow> input list \<Rightarrow> Client \<Rightarrow> Client" where
  "run E [] s = s"
| "run E (i # is) s = run E is (step E i s)"

section \<open>Pending calls\<close>

text \<open>
  The entries of the registry that \<^verbatim>\<open>send\<close> put there, each waiting for the reply to
  its call, and the correlation ids they are registered under.
\<close>

definition is_oneshot :: "Handler \<Rightarrow> bool" where
  "is_oneshot h = (case handler h of Settle p \<Rightarrow> True | User u \<Rightarrow> False)"

definition pending :: "Client \<Rightarrow> Handler list" where
  "pending s = filter is_oneshot (handlers s)"

definition pending_ids :: "Client \<Rightarrow> string list" where
  "pending_ids s = map name (pending s)"

text \<open>
  Whether the caller has registered, with \<^verbatim>\<open>registerHandler(nm, 'callback', fn)\<close>, an
  entry that answers to the name \<open>nm\<close>.
\<close>

definition shadowed :: "Client \<Rightarrow> string \<Rightarrow> bool" where
  "shadowed s nm = list_ex (\<lambda>g. \<not> is_oneshot g \<and> type g = Callback \<and> name g = nm) (handlers s)"

text \<open>
  A step leaves the registry alone, or appends the one-shot entry of a new call under the
  next correlation id, or appends an entry of the caller's, or takes one entry out.
\<close>

definition reg_same :: "Client \<Rightarrow> Client \<Rightarrow> bool" where
  "reg_same s s' \<longleftrightarrow>
     handlers s' = handlers s \<and> callbacks s' = callbacks s
     \<and> length (promises s') = length (promises s)"

definition reg_call :: "Client \<Rightarrow> Client \<Rightarrow> bool" where
  "reg_call s s' \<longleftrightarrow>
     handlers s' = handlers s @ [\<lparr>name = correlation_id (id_s s) (callbacks s),
                                  type = Callback, handler = Settle (length (promises s))\<rparr>]
     \<and> callbacks s' = Suc (callbacks s) \<and> length (promises s') = Suc (length (promises s))"

definition reg_user :: "Client \<Rightarrow> Client \<Rightarrow> bool" where
  "reg_user s s' \<longleftrightarrow>
     (\<exists>nm ty u. handlers s' = handlers s @ [\<lparr>name = nm, type = ty, handler = User u\<rparr>])
     \<and> callbacks s' = callbacks s \<and> length (promises s') = length (promises s)"

definition reg_removed :: "Client \<Rightarrow> Client \<Rightarrow> bool" where
  "reg_removed s s' \<longleftrightarrow>
     (\<exists>h\<in>set (handlers s). handlers s' = remove1 h (handlers s))
     \<and> callbacks s' = callbacks s \<and> length (promises s') = length (promises s)"

text \<open>
  What holds of the registry of a session whose \<^verbatim>\<open>v4()\<close> returned \<open>sid\<close>: every
  pending entry is of kind callback, is registered under the id of a counter value already
  used and settles a promise that exists; no two of them share an id or a promise.
\<close>

definition registry_ok :: "string \<Rightarrow> Client \<Rightarrow> bool" where
  "registry_ok sid s \<longleftrightarrow>
     id_s s = sid
     \<and> (\<forall>h\<in>set (pending s).
           type h = Callback \<and> (\<exists>k<callbacks s. name h = correlation_id sid k)
           \<and> (\<exists>p<length (promises s). handler h = Settle p))
     \<and> distinct (map name (pending s)) \<and> distinct (map handler (pending s))"

section \<open>Reading the observations\<close>

text \<open>
  The observations made since the last \<^verbatim>\<open>connect\<close> event (\<open>acc\<close> holds those seen so
  far), the delays of the timeouts among them, and the number of \<^verbatim>\<open>close\<close> events.
\<close>

fun since_connect :: "obs list \<Rightarrow> obs list \<Rightarrow> obs list" where
  "since_connect acc [] = acc"
| "since_connect acc (x # xs) =
     (if x = Emitted EvConnect then since_connect [] xs else since_connect (acc @ [x]) xs)"

fun delay_of :: "obs \<Rightarrow> real list" where
  "delay_of (Scheduled d) = [d]"
| "delay_of _ = []"

fun is_closure :: "obs \<Rightarrow> bool" where
  "is_closure (Emitted (EvClose c)) = True"
| "is_closure _ = False"

definition retry_delays :: "obs list \<Rightarrow> real list" where
  "retry_delays tr = concat (map delay_of (since_connect [] tr))"

definition closures :: "obs list \<Rightarrow> nat" where
  "closures tr = length (filter is_closure (since_connect [] tr))"

text \<open>The delay of the \<open>k\<close>-th retry: \<^verbatim>\<open>k * reconnectInterval * reconnectIntervalMultiplier\<close>.\<close>

definition backoff :: "Client \<Rightarrow> nat \<Rightarrow> real" where
  "backoff s k = real k * reconnectInterval (opts s) * reconnectIntervalMultiplier (opts s)"

text \<open>An observation that is neither a timeout, nor a \<^verbatim>\<open>close\<close>, nor a \<^verbatim>\<open>connect\<close> event.\<close>

fun quiet :: "obs \<Rightarrow> bool" where
  "quiet (Scheduled d) = False"
| "quiet (Emitted (EvClose c)) = False"
| "quiet (Emitted EvConnect) = False"
| "quiet _ = True"

text \<open>The request of the login call of a session.\<close>

definition is_login :: "Client \<Rightarrow> PacketData \<Rightarrow> bool" where
  "is_login s pd \<longleftrightarrow>
     pd_s pd = Some ''auth'' \<and> pd_n pd = Some ''login'' \<and> pd_t pd = Call
     \<and> pd_d pd = Some (login_payload s)"

text \<open>
  An inbound packet that the lookup of \<^verbatim>\<open>handle\<close> takes to the entry \<open>h\<close>: a callback
  whose id, as a string, is the name of \<open>h\<close>, or a packet of another kind whose action is
  the name of \<open>h\<close> and whose kind is that of \<open>h\<close> or falsy.
\<close>

definition dispatched :: "Env \<Rightarrow> json \<Rightarrow> Handler \<Rightarrow> bool" where
  "dispatched E pkt h \<longleftrightarrow>
     (if get_prop pkt ''t'' = Some (JStr ''callback'')
      then matches (Some (JStr (String E (get_prop pkt ''i'')))) (Some (JStr ''callback'')) h
      else matches (get_prop pkt ''n'') (get_prop pkt ''t'') h)"

text \<open>
  An inbound packet that answers the call with correlation id \<open>i\<close>: a callback that
  carries \<open>i\<close> as its id or, \<^verbatim>\<open>findHandler\<close> ignoring the kind of the entry when the
  kind it is given is falsy, a packet whose kind is absent or falsy and whose action is
  \<open>i\<close>.
\<close>

definition answers :: "Env \<Rightarrow> string \<Rightarrow> json \<Rightarrow> bool" where
  "answers E i pkt \<longleftrightarrow>
     (get_prop pkt ''t'' = Some (JStr ''callback'') \<and> String E (get_prop pkt ''i'') = i)
     \<or> (\<not> truthy (get_prop pkt ''t'') \<and> get_prop pkt ''n'' = Some (JStr i))"

text \<open>
  What holds of the handshake in every state of a session. Of the transport: a
  \<^verbatim>\<open>connect\<close> waits for the socket it created, and only that socket resumes it.
\<close>

definition transport_ok :: "Client \<Rightarrow> bool" where
  "transport_ok s \<longleftrightarrow>
     (\<forall>k<length (tasks s). \<forall>n. tasks s ! k = AwaitOpen n \<longrightarrow>
        n < length (sockets s) \<and> creator (sockets s ! n) = k)
     \<and> (\<forall>k n. Opened k n \<in> set (trace s) \<longrightarrow>
        n < length (sockets s) \<and> creator (sockets s ! n) = k)"

text \<open>
  Of the login: a \<^verbatim>\<open>connect\<close> that waits for its login call has seen its socket open
  and has sent the login request.
\<close>

definition login_ok :: "Client \<Rightarrow> bool" where
  "login_ok s \<longleftrightarrow>
     (\<forall>k<length (tasks s). \<forall>p. tasks s ! k = AwaitLogin p \<longrightarrow>
        (\<exists>n. Opened k n \<in> set (trace s))
        \<and> (\<exists>pd. Requested p pd \<in> set (trace s) \<and> is_login s pd))"

text \<open>
  Of the replies: a promise is resolved only by an invocation of its closure, with the
  payload of the packet; a closure in the registry belongs to the request of its promise
  and is registered under the id of that request; a closure was only ever invoked on a
  packet that answers its request; and a promise has one request.
\<close>

definition replies_ok :: "Env \<Rightarrow> Client \<Rightarrow> bool" where
  "replies_ok E s \<longleftrightarrow>
     (\<forall>p<length (promises s). \<forall>v. promises s ! p = Resolved v \<longrightarrow>
        (\<exists>pkt. Invoked (Settle p) pkt \<in> set (trace s) \<and> get_prop pkt ''d'' = v))
     \<and> (\<forall>h\<in>set (handlers s). \<forall>p. handler h = Settle p \<longrightarrow>
          type h = Callback \<and> (\<exists>pd. Requested p pd \<in> set (trace s) \<and> pd_i pd = name h))
     \<and> (\<forall>p pkt. Invoked (Settle p) pkt \<in> set (trace s) \<longrightarrow>
          (\<exists>pd. Requested p pd \<in> set (trace s) \<and> answers E (pd_i pd) pkt))
     \<and> (\<forall>p pd. Requested p pd \<in> set (trace s) \<longrightarrow> p < length (promises s))
     \<and> (\<forall>p pd pd'. Requested p pd \<in> set (trace s) \<longrightarrow> Requested p pd' \<in> set (trace s) \<longrightarrow>
          pd = pd')"

definition handshake_ok :: "Env \<Rightarrow> Client \<Rightarrow> bool" where
  "handshake_ok E s \<longleftrightarrow> transport_ok s \<and> login_ok s \<and> replies_ok E s"

text \<open>
  The four kinds of step, as the handshake sees them. A step that makes no request and
  invokes no handler: it may emit events and schedule a timeout, and a \<^verbatim>\<open>connect\<close> may
  come to wait for a socket it has just created.
\<close>

fun emission :: "obs \<Rightarrow> bool" where
  "emission (Emitted ev) = True"
| "emission (Scheduled d) = True"
| "emission _ = False"

definition plain_step :: "Client \<Rightarrow> Client \<Rightarrow> bool" where
  "plain_step s s' \<longleftrightarrow>
     (\<exists>ext. trace s' = trace s @ ext \<and> list_all emission ext)
     \<and> promises s' = promises s
     \<and> (\<forall>h\<in>set (handlers s'). \<forall>p. handler h = Settle p \<longrightarrow> h \<in> set (handlers s))
     \<and> (\<forall>k<length (tasks s'). \<forall>p. tasks s' ! k = AwaitLogin p \<longrightarrow>
          k < length (tasks s) \<and> tasks s ! k = AwaitLogin p)
     \<and> (\<forall>k<length (tasks s'). \<forall>n. tasks s' ! k = AwaitOpen n \<longrightarrow>
          (k < length (tasks s) \<and> tasks s ! k = AwaitOpen n)
          \<or> (length (sockets s) \<le> n \<and> n < length (sockets s')
              \<and> creator (sockets s' ! n) = k))"

text \<open>A step that hands an inbound packet to an entry of the registry.\<close>

definition dispatch_step :: "Env \<Rightarrow> Client \<Rightarrow> Client \<Rightarrow> bool" where
  "dispatch_step E s s' \<longleftrightarrow>
     (\<exists>pkt. \<exists>h\<in>set (handlers s).
        dispatched E pkt h \<and> trace s' = trace s @ [Invoked (handler h) pkt]
        \<and> (\<forall>q<length (promises s). \<forall>v. promises s' ! q = Resolved v \<longrightarrow>
             promises s ! q = Resolved v \<or> (handler h = Settle q \<and> get_prop pkt ''d'' = v)))
     \<and> set (handlers s') \<subseteq> set (handlers s) \<and> tasks s' = tasks s
     \<and> length (promises s') = length (promises s)"

text \<open>What \<^verbatim>\<open>send\<close> leaves behind for the envelope \<open>pd\<close>.\<close>

definition requested :: "PacketData \<Rightarrow> Client \<Rightarrow> Client \<Rightarrow> bool" where
  "requested pd s s' \<longleftrightarrow>
     handlers s' = handlers s @ [\<lparr>name = pd_i pd, type = Callback,
                                  handler = Settle (length (promises s))\<rparr>]
     \<and> length (promises s') = Suc (length (promises s))
     \<and> (\<forall>q<length (promises s). promises s' ! q = promises s ! q)
     \<and> (\<forall>v. promises s' ! length (promises s) \<noteq> Resolved v)"

text \<open>A call or a watch of the caller.\<close>

definition send_step :: "Client \<Rightarrow> Client \<Rightarrow> bool" where
  "send_step s s' \<longleftrightarrow>
     (\<exists>pd. trace s' = trace s @ [Requested (length (promises s)) pd] \<and> requested pd s s')
     \<and> tasks s' = tasks s"

text \<open>The socket of a \<^verbatim>\<open>connect\<close> opens and the \<^verbatim>\<open>connect\<close> makes its login call.\<close>

definition login_step :: "Client \<Rightarrow> Client \<Rightarrow> bool" where
  "login_step s s' \<longleftrightarrow>
     (\<exists>k n pd. k < length (tasks s) \<and> tasks s ! k = AwaitOpen n
        \<and> tasks s' = (tasks s)[k := AwaitLogin (length (promises s))]
        \<and> is_login s pd
        \<and> trace s' = trace s @ [Opened k n, Requested (length (promises s)) pd]
        \<and> requested pd s s')"

section \<open>Scenarios\<close>

text \<open>
  A session named \<^verbatim>\<open>svc\<close> with the default options, whose \<^verbatim>\<open>v4()\<close> returned
  \<^verbatim>\<open>c\<close>, and the frames of the examples with what \<^verbatim>\<open>JSON.parse\<close> makes of them.
  Every other frame of the scenarios is garbage (\<^verbatim>\<open>{oops\<close> is). The caller's handler
  13 throws; every other handler of the caller returns.
\<close>

definition scenario_options :: UserOptions where
  "scenario_options =
     \<lparr>u_name = Some ''svc'', u_host = None, u_port = None, u_path = None, u_token = None,
      u_autoReconnect = None, u_reconnectInterval = None,
      u_reconnectIntervalMultiplier = None\<rparr>"

definition reply :: "string \<Rightarrow> json option \<Rightarrow> json" where
  "reply i d =
     JObj ([(''t'', JStr ''callback''), (''i'', JStr i)]
           @ (case d of None \<Rightarrow> [] | Some v \<Rightarrow> [(''d'', v)]))"

definition scenario_frames :: "(string \<times> json) list" where
  \<open>scenario_frames =
     [(''{"t":"callback","i":"c-0","d":{}}'', reply ''c-0'' (Some (JObj []))),
      (''{"t":"callback","i":"c-1","d":{"status":200,"result":3}}'',
         reply ''c-1'' (Some (JObj [(''status'', JNum 200), (''result'', JNum 3)]))),
      (''{"t":"callback","i":"c-1","d":{"status":500}}'',
         reply ''c-1'' (Some (JObj [(''status'', JNum 500)]))),
      (''{"t":"callback","i":"c-1"}'', reply ''c-1'' None),
      (''{"t":"call","n":"ping","i":"x"}'',
         JObj [(''t'', JStr ''call''), (''n'', JStr ''ping''), (''i'', JStr ''x'')]),
      (''{"n":"c-0","d":{}}'', JObj [(''n'', JStr ''c-0''), (''d'', JObj [])])]\<close>

definition scenario_env :: Env where
  "scenario_env =
     \<lparr>JSON_parse = map_of scenario_frames,
      ToString = (\<lambda>v. ''undefined''),
      user_fn = (\<lambda>u pkt. if u = 13 then Some (Other ''boom'') else None)\<rparr>"

text \<open>
  The session after \<^verbatim>\<open>connect()\<close> has run to its end: no token could be obtained,
  socket 0 opened, the login call \<^verbatim>\<open>c-0\<close> was answered.
\<close>

definition connected :: Client where
  \<open>connected =
     run scenario_env
       [DoConnect, TokenSettled 0 None, SockOpen 0,
        SockMessage 0 ''{"t":"callback","i":"c-0","d":{}}'', LoginSettled 0]
       (new_Client ''c'' scenario_options)\<close>

text \<open>The same session with \<^verbatim>\<open>call('math/add', {a:1,b:2})\<close> pending as \<^verbatim>\<open>c-1\<close>.\<close>

definition calling :: Client where
  "calling =
     step scenario_env
       (DoSend Call ''math/add'' (Some (JObj [(''a'', JNum 1), (''b'', JNum 2)]))) connected"

text \<open>The same session after its owner has attached a listener to \<^verbatim>\<open>error\<close>.\<close>

definition listening :: Client where
  "listening = step scenario_env DoOnError calling"

text \<open>A second request, \<^verbatim>\<open>watch('feed/ticks')\<close>, pending as \<^verbatim>\<open>c-2\<close> beside the first.\<close>

definition calling_twice :: Client where
  "calling_twice = step scenario_env (DoSend Watch ''feed/ticks'' None) calling"

text \<open>
  The connected session in which the caller registers a handler of their own under kind
  callback and the name \<^verbatim>\<open>c-1\<close>, and then makes the call that is given the id
  \<^verbatim>\<open>c-1\<close>.
\<close>

definition hijacked :: Client where
  "hijacked =
     run scenario_env
       [DoRegister ''c-1'' Callback 7,
        DoSend Call ''math/add'' (Some (JObj [(''a'', JNum 1), (''b'', JNum 2)]))]
       connected"

text \<open>
  The connected session whose socket closes with code 1006; the timer fires, the second
  \<^verbatim>\<open>connect\<close> creates socket 1, and that socket closes as well.
\<close>

definition dropping :: Client where
  "dropping =
     run scenario_env
       [SockClose 0 1006, TimerFire 0, TokenSettled 1 None, SockClose 1 1006] connected"

text \<open>The session when its login call has just been answered and \<^verbatim>\<open>connect\<close> is not yet resumed.\<close>

definition answered :: Client where
  \<open>answered =
     run scenario_env
       [DoConnect, TokenSettled 0 None, SockOpen 0,
        SockMessage 0 ''{"t":"callback","i":"c-0","d":{}}'']
       (new_Client ''c'' scenario_options)\<close>

text \<open>
  A session whose login call is answered by a frame that has no kind and carries the id
  of the login call as its action, and whose \<^verbatim>\<open>connect\<close> is then resumed.
\<close>

definition kindless_login :: Client where
  \<open>kindless_login =
     run scenario_env
       [DoConnect, TokenSettled 0 None, SockOpen 0,
        SockMessage 0 ''{"n":"c-0","d":{}}'', LoginSettled 0]
       (new_Client ''c'' scenario_options)\<close>

text \<open>
  The connected session in which the caller registers handler 13, which throws, under
  kind callback and the name \<^verbatim>\<open>evt\<close>.
\<close>

definition throwing :: Client where
  "throwing = registerHandler ''evt'' Callback 13 connected"

section \<open>Evaluation and basic facts\<close>

lemma dec_small: "n < 10 \<Longrightarrow> dec n = [digit n]"
  by (subst dec.simps) simp

lemmas model_defs =
  connect_begin_def connect_token_def connect_socket_def connect_open_def connect_login_def
  call_def watch_def send_def write_pd_def socket_send_def observe_def emit_def setTimeout_def
  settle_def resolve_def reject_def on_message_def on_error_def on_close_def parseJSON_def
  handle_def invoke_def settle_handler_def findHandler_def matches_def String_def
  splice_at_def correlation_id_def dec_small digit_def destroy_def timer_fire_def
  registerHandler_def registerMethod_def registerWatcher_def new_Client_def merge_options_def
  or_default_def login_payload_def wsEndpoint_def wsProtocol_def service_of_def action_of_def
  DEFAULT_HOST_def DEFAULT_PORT_def socket_opened_def socket_closed_def socket_close_def
  on_error_listener_def off_error_listener_def

lemmas scenario_defs =
  scenario_env_def scenario_frames_def scenario_options_def reply_def connected_def calling_def

lemma tag_inj: "tag a = tag b \<longleftrightarrow> a = b"
  by (cases a; cases b) simp_all

lemma tag_nonempty: "tag a \<noteq> []"
  by (cases a) simp_all

lemma findHandler_None:
  "findHandler hs nm ty = None \<longleftrightarrow> (\<forall>h\<in>set hs. \<not> matches nm ty h)"
  by (auto simp: findHandler_def find_None_iff)

lemma findHandler_Some: "findHandler hs nm ty = Some h \<Longrightarrow> h \<in> set hs \<and> matches nm ty h"
  by (auto simp: findHandler_def find_Some_iff)

lemma indexOf_lower: "- 1 \<le> indexOf xs x"
  by (induction xs) (auto simp: Let_def)

lemma indexOf_member: "x \<in> set xs \<Longrightarrow> 0 \<le> indexOf xs x"
  using indexOf_lower[of _ x] by (induction xs) (auto simp: Let_def)

lemma splice_at_indexOf: "x \<in> set xs \<Longrightarrow> splice_at xs (nat (indexOf xs x)) = remove1 x xs"
proof (induction xs)
  case Nil
  then show ?case by simp
next
  case (Cons y ys)
  show ?case
  proof (cases "y = x")
    case True
    then show ?thesis by (simp add: splice_at_def)
  next
    case False
    with Cons.prems have mem: "x \<in> set ys" by simp
    from indexOf_member[OF mem] have "nat (indexOf ys x + 1) = Suc (nat (indexOf ys x))" by simp
    with False Cons.IH[OF mem] indexOf_member[OF mem] show ?thesis
      by (simp add: splice_at_def Let_def)
  qed
qed

lemma handlers_observe [simp]: "handlers (observe x s) = handlers s"
  by (simp add: observe_def)

lemma handlers_settle [simp]: "handlers (settle p v s) = handlers s"
  by (simp add: settle_def)

lemma handlers_settle_handler: "handlers (state_of (settle_handler p pkt s)) = handlers s"
  by (simp add: settle_handler_def resolve_def reject_def split: option.splits json.splits)

lemma handlers_invoke: "handlers (state_of (invoke E h pkt s)) = handlers s"
  by (simp add: invoke_def Let_def handlers_settle_handler split: handler_fn.splits option.splits)

lemma find_app: "find P (xs @ ys) = (case find P xs of None \<Rightarrow> find P ys | Some x \<Rightarrow> Some x)"
  by (induction xs) simp_all

section \<open>The claims\<close>

subsection \<open>Malformed frames\<close>

text \<open>
  C7. An inbound frame that \<^verbatim>\<open>JSON.parse\<close> rejects is dropped: the \<^verbatim>\<open>message\<close>
  listener returns normally and the session is exactly what it was, so no event was
  emitted, no handler was invoked, and the registry and the promises of the pending calls
  are unchanged.
\<close>

theorem malformed_frame_dropped:
  "JSON_parse E data = None \<Longrightarrow>
     on_message E data s = Return s \<and> step E (SockMessage n data) s = s"
  by (simp add: on_message_def parseJSON_def)

theorem malformed_frame_dropped_witness:
  "JSON_parse scenario_env ''{oops'' = None
   \<and> on_message scenario_env ''{oops'' calling = Return calling
   \<and> step scenario_env (SockMessage 0 ''{oops'') calling = calling"
  using malformed_frame_dropped [of scenario_env "''{oops''" calling 0]
  by (simp add: scenario_env_def scenario_frames_def)

subsection \<open>Routing errors\<close>

text \<open>
  C8, as amended. A well-formed inbound envelope (kind \<open>ty\<close>, correlation id \<open>i\<close>,
  action \<open>n\<close> when it has one) that no registry entry answers to, by id under kind
  callback for a callback and by action and kind otherwise, invokes no handler and leaves
  the registry and the rest of the session as they were. When a listener is attached to
  \<^verbatim>\<open>error\<close>, \<^verbatim>\<open>handle\<close> returns normally and one \<^verbatim>\<open>error\<close> event has been emitted;
  when none is attached, the error \<^verbatim>\<open>Invalid packet\<close> is thrown out of \<^verbatim>\<open>handle\<close>.
\<close>

theorem unrouted_envelope_emits_error:
  assumes "get_prop pkt ''t'' = Some (JStr (tag ty))"
    and "get_prop pkt ''i'' = Some (JStr i)"
    and "get_prop pkt ''n'' = map_option JStr n"
    and "\<forall>h\<in>set (handlers s).
           \<not> (if ty = Callback then name h = i \<and> type h = Callback
              else Some (name h) = n \<and> type h = ty)"
  shows "handle E pkt s =
           (if error_listeners s = 0 then Throw InvalidPacket s
            else Return (s\<lparr>trace := trace s @ [Emitted (EvError InvalidPacket)]\<rparr>))"
proof (cases "ty = Callback")
  case True
  with assms(4)
  have "findHandler (handlers s) (Some (JStr i)) (Some (JStr ''callback'')) = None"
    by (auto simp: findHandler_None matches_def tag_inj[of _ Callback, simplified])
  with True assms(1,2) show ?thesis
    by (simp add: handle_def String_def emit_def observe_def)
next
  case False
  with assms(4) tag_nonempty[of ty]
  have "findHandler (handlers s) (map_option JStr n) (Some (JStr (tag ty))) = None"
    by (cases n) (auto simp: findHandler_None matches_def tag_inj)
  moreover from False have "tag ty \<noteq> ''callback''" by (cases ty) simp_all
  ultimately show ?thesis using assms(1,3)
    by (simp add: handle_def emit_def observe_def)
qed

theorem unrouted_envelope_emits_error_witness:
  "handlers listening = [\<lparr>name = ''c-1'', type = Callback, handler = Settle 1\<rparr>]
   \<and> error_listeners listening = 1
   \<and> handle scenario_env (JObj [(''t'', JStr ''call''), (''n'', JStr ''ping''), (''i'', JStr ''x'')])
        listening
      = Return (listening\<lparr>trace := trace listening @ [Emitted (EvError InvalidPacket)]\<rparr>)"
proof -
  have h: "handlers listening = [\<lparr>name = ''c-1'', type = Callback, handler = Settle 1\<rparr>]"
    and l: "error_listeners listening = 1"
    by (simp_all add: listening_def scenario_defs model_defs Let_def)
  with unrouted_envelope_emits_error
         [of "JObj [(''t'', JStr ''call''), (''n'', JStr ''ping''), (''i'', JStr ''x'')]"
             Call "''x''" "Some ''ping''" listening scenario_env]
  show ?thesis by simp
qed

text \<open>
  The claim as it was written has nothing thrown. The session \<^verbatim>\<open>c\<close> has no listener
  on \<^verbatim>\<open>error\<close>: the frame \<^verbatim>\<open>{"t":"call","n":"ping","i":"x"}\<close>, which no entry answers
  to, makes the \<^verbatim>\<open>message\<close> listener throw, and no event is observed.
\<close>

theorem unrouted_envelope_counterexample:
  \<open>error_listeners calling = 0
   \<and> on_message scenario_env ''{"t":"call","n":"ping","i":"x"}'' calling
       = Throw InvalidPacket calling\<close>
  by (simp add: scenario_defs model_defs Let_def)

subsection \<open>A callback without payload\<close>

text \<open>
  C9. A callback envelope whose id finds the one-shot entry of a call (the closure of
  promise \<open>p\<close>) and that carries no payload, \<^verbatim>\<open>d\<close> absent or \<^verbatim>\<open>null\<close>: the handler is
  invoked and throws, the exception leaves \<^verbatim>\<open>handle\<close>, and the session is what it was
  but for the record of the invocation. The promise is therefore not settled and the
  entry is still in the registry.
\<close>

theorem callback_without_payload_throws:
  assumes "get_prop pkt ''t'' = Some (JStr ''callback'')"
    and "get_prop pkt ''d'' = None \<or> get_prop pkt ''d'' = Some JNull"
    and "findHandler (handlers s) (Some (JStr (String E (get_prop pkt ''i''))))
           (Some (JStr ''callback'')) = Some h"
    and "handler h = Settle p"
  shows "handle E pkt s = Throw TypeError (s\<lparr>trace := trace s @ [Invoked (Settle p) pkt]\<rparr>)"
  using assms by (auto simp: handle_def invoke_def settle_handler_def observe_def Let_def)

theorem callback_without_payload_throws_witness:
  "handle scenario_env (reply ''c-1'' None) calling
     = Throw TypeError (calling\<lparr>trace := trace calling @ [Invoked (Settle 1) (reply ''c-1'' None)]\<rparr>)
   \<and> handlers calling = [\<lparr>name = ''c-1'', type = Callback, handler = Settle 1\<rparr>]
   \<and> promises calling ! 1 = Pending"
proof -
  have h: "handlers calling = [\<lparr>name = ''c-1'', type = Callback, handler = Settle 1\<rparr>]"
    and p: "promises calling ! 1 = Pending"
    by (simp_all add: scenario_defs model_defs Let_def)
  from h have f: "findHandler (handlers calling)
           (Some (JStr (String scenario_env (get_prop (reply ''c-1'' None) ''i''))))
           (Some (JStr ''callback'')) = Some \<lparr>name = ''c-1'', type = Callback, handler = Settle 1\<rparr>"
    by (simp add: findHandler_def matches_def String_def reply_def)
  from callback_without_payload_throws [OF _ _ f, of 1] h p show ?thesis
    by (simp add: reply_def)
qed

subsection \<open>Removal is decided by the kind of the inbound envelope\<close>

text \<open>
  C10, as amended. Whatever entry a callback-kind envelope is dispatched to is taken out
  of the registry once its function has returned, whether \<^verbatim>\<open>send\<close> registered it or
  the caller did: an entry registered with \<^verbatim>\<open>registerHandler(nm, 'callback', fn)\<close> is
  gone after the first dispatch from which its function returns. A dispatch of any other
  kind leaves the registry as it was.
\<close>

theorem removal_follows_envelope_kind:
  "(get_prop pkt ''t'' = Some (JStr ''callback'') \<longrightarrow>
      findHandler (handlers s) (Some (JStr (String E (get_prop pkt ''i''))))
        (Some (JStr ''callback'')) = Some h \<longrightarrow>
      thrown (invoke E h pkt s) = None \<longrightarrow>
        h \<in> set (handlers s) \<and> thrown (handle E pkt s) = None
        \<and> handlers (state_of (handle E pkt s)) = remove1 h (handlers s))
   \<and> (get_prop pkt ''t'' = Some (JStr ''callback'') \<longrightarrow>
      get_prop pkt ''i'' = Some (JStr nm) \<longrightarrow>
      findHandler (handlers s) (Some (JStr nm)) (Some (JStr ''callback'')) = None \<longrightarrow>
      user_fn E u pkt = None \<longrightarrow>
        handlers (state_of (handle E pkt (registerHandler nm Callback u s))) = handlers s)
   \<and> (get_prop pkt ''t'' \<noteq> Some (JStr ''callback'') \<longrightarrow>
        handlers (state_of (handle E pkt s)) = handlers s)"
proof (intro conjI impI)
  assume t: "get_prop pkt ''t'' = Some (JStr ''callback'')"
    and f: "findHandler (handlers s) (Some (JStr (String E (get_prop pkt ''i''))))
              (Some (JStr ''callback'')) = Some h"
    and r: "thrown (invoke E h pkt s) = None"
  from findHandler_Some[OF f] show mem: "h \<in> set (handlers s)" by simp
  from r obtain s1 where s1: "invoke E h pkt s = Return s1"
    by (cases "invoke E h pkt s") auto
  with handlers_invoke[of E h pkt s] have hs: "handlers s1 = handlers s" by simp
  from t f s1 show "thrown (handle E pkt s) = None" by (simp add: handle_def)
  from t f s1 hs mem indexOf_member[OF mem]
  show "handlers (state_of (handle E pkt s)) = remove1 h (handlers s)"
    by (simp add: handle_def splice_at_indexOf)
next
  assume t: "get_prop pkt ''t'' = Some (JStr ''callback'')"
    and i: "get_prop pkt ''i'' = Some (JStr nm)"
    and f: "findHandler (handlers s) (Some (JStr nm)) (Some (JStr ''callback'')) = None"
    and r: "user_fn E u pkt = None"
  let ?h = "\<lparr>name = nm, type = Callback, handler = User u\<rparr>"
  let ?s = "registerHandler nm Callback u s"
  have m: "matches (Some (JStr nm)) (Some (JStr ''callback'')) ?h"
    by (simp add: matches_def)
  with f have notin: "?h \<notin> set (handlers s)" by (auto simp: findHandler_None)
  from f m have f': "findHandler (handlers ?s) (Some (JStr nm)) (Some (JStr ''callback'')) = Some ?h"
    by (simp add: findHandler_def registerHandler_def find_app)
  have mem: "?h \<in> set (handlers ?s)" by (simp add: registerHandler_def)
  from r have inv: "invoke E ?h pkt ?s = Return (observe (Invoked (User u) pkt) ?s)"
    by (simp add: invoke_def)
  from notin have rm: "remove1 ?h (handlers ?s) = handlers s"
    by (simp add: registerHandler_def remove1_append)
  from t i f' inv mem indexOf_member[OF mem] rm
  show "handlers (state_of (handle E pkt ?s)) = handlers s"
    by (simp add: handle_def String_def splice_at_indexOf)
next
  assume t: "get_prop pkt ''t'' \<noteq> Some (JStr ''callback'')"
  show "handlers (state_of (handle E pkt s)) = handlers s"
  proof (cases "findHandler (handlers s) (get_prop pkt ''n'') (get_prop pkt ''t'')")
    case None
    with t show ?thesis by (simp add: handle_def emit_def)
  next
    case (Some x)
    with t handlers_invoke[of E x pkt s] show ?thesis
      by (cases "invoke E x pkt s") (simp_all add: handle_def)
  qed
qed

theorem removal_follows_envelope_kind_witness:
  "handlers (registerHandler ''evt'' Callback 7 connected)
     = [\<lparr>name = ''evt'', type = Callback, handler = User 7\<rparr>]
   \<and> handlers (state_of (handle scenario_env (reply ''evt'' None)
                  (registerHandler ''evt'' Callback 7 connected))) = []
   \<and> handlers (state_of (handle scenario_env
                  (JObj [(''t'', JStr ''call''), (''n'', JStr ''ping''), (''i'', JStr ''x'')])
                  (registerMethod ''ping'' 3 connected)))
     = [\<lparr>name = ''ping'', type = Call, handler = User 3\<rparr>]"
proof -
  have c: "handlers connected = []"
    by (simp add: scenario_defs model_defs Let_def)
  from c removal_follows_envelope_kind
         [of "reply ''evt'' None" connected scenario_env _ "''evt''" 7]
  have a: "handlers (state_of (handle scenario_env (reply ''evt'' None)
                  (registerHandler ''evt'' Callback 7 connected))) = []"
    by (simp add: reply_def findHandler_def scenario_env_def)
  from removal_follows_envelope_kind
         [of "JObj [(''t'', JStr ''call''), (''n'', JStr ''ping''), (''i'', JStr ''x'')]"
             "registerMethod ''ping'' 3 connected" scenario_env]
  have b: "handlers (state_of (handle scenario_env
                  (JObj [(''t'', JStr ''call''), (''n'', JStr ''ping''), (''i'', JStr ''x'')])
                  (registerMethod ''ping'' 3 connected)))
     = handlers (registerMethod ''ping'' 3 connected)"
    by simp
  from a b c show ?thesis by (simp add: registerHandler_def registerMethod_def)
qed

text \<open>
  The claim as it was written has every entry removed after its invocation. The handler
  13, registered under kind callback and the name \<^verbatim>\<open>evt\<close>, throws: the exception
  leaves \<^verbatim>\<open>handle\<close> before the entry is taken out, and the entry is still registered.
\<close>

theorem throwing_handler_counterexample:
  "handlers throwing = [\<lparr>name = ''evt'', type = Callback, handler = User 13\<rparr>]
   \<and> handle scenario_env (reply ''evt'' None) throwing
       = Throw (Other ''boom'')
           (throwing\<lparr>trace := trace throwing @ [Invoked (User 13) (reply ''evt'' None)]\<rparr>)
   \<and> handlers (state_of (handle scenario_env (reply ''evt'' None) throwing))
       = [\<lparr>name = ''evt'', type = Callback, handler = User 13\<rparr>]"
  by (simp add: throwing_def scenario_defs model_defs Let_def)

subsection \<open>Settlement of a pending call\<close>

text \<open>
  C1, as amended. A callback envelope whose id finds the one-shot entry of a pending call
  (promise \<open>p\<close>) and whose payload \<open>d\<close> is present and not \<^verbatim>\<open>null\<close> settles that
  promise and returns: when \<open>d\<close> has a \<^verbatim>\<open>status\<close> property, of whatever type, the
  number 200 resolves the promise with the whole payload \<open>d\<close>, status included, and any
  other value rejects it with an error made from that status; when \<open>d\<close> has no
  \<^verbatim>\<open>status\<close> property the promise is resolved with \<open>d\<close>. This holds for \<^verbatim>\<open>call\<close> and
  \<^verbatim>\<open>watch\<close> alike, both being \<^verbatim>\<open>send\<close>.
\<close>

theorem callback_settles_pending_call:
  assumes "get_prop pkt ''t'' = Some (JStr ''callback'')"
    and "findHandler (handlers s) (Some (JStr (String E (get_prop pkt ''i''))))
           (Some (JStr ''callback'')) = Some h"
    and "handler h = Settle p"
    and "p < length (promises s)" and "promises s ! p = Pending"
    and "get_prop pkt ''d'' = Some d" and "d \<noteq> JNull"
  shows "thrown (handle E pkt s) = None
    \<and> promises (state_of (handle E pkt s)) ! p =
        (case get_prop d ''status'' of
           None \<Rightarrow> Resolved (Some d)
         | Some st \<Rightarrow> if st = JNum 200 then Resolved (Some d) else Rejected (ResponseCode st))"
proof -
  let ?s1 = "observe (Invoked (Settle p) pkt) s"
  from assms(4,5) have pend: "p < length (promises ?s1)" "promises ?s1 ! p = Pending"
    by (simp_all add: observe_def)
  have res: "\<And>v. promises (settle p v ?s1) ! p = v"
    using pend by (simp add: settle_def)
  from assms(6,7) have sh: "settle_handler p pkt ?s1 =
      (case get_prop d ''status'' of
         None \<Rightarrow> Return (resolve p (Some d) ?s1)
       | Some st \<Rightarrow> if st = JNum 200 then Return (resolve p (Some d) ?s1)
                    else Return (reject p (ResponseCode st) ?s1))"
    by (cases d) (auto simp: settle_handler_def split: option.splits)
  from assms(3) sh have inv: "invoke E h pkt s =
      (case get_prop d ''status'' of
         None \<Rightarrow> Return (resolve p (Some d) ?s1)
       | Some st \<Rightarrow> if st = JNum 200 then Return (resolve p (Some d) ?s1)
                    else Return (reject p (ResponseCode st) ?s1))"
    by (simp add: invoke_def)
  show ?thesis
    using assms(1,2) inv res
    by (simp add: handle_def resolve_def reject_def split: option.splits)
qed

theorem callback_settles_pending_call_witness:
  \<open>promises calling ! 1 = Pending
   \<and> promises (state_of (handle scenario_env
        (reply ''c-1'' (Some (JObj [(''status'', JNum 500)]))) calling)) ! 1
      = Rejected (ResponseCode (JNum 500))
   \<and> promises (state_of (handle scenario_env
        (reply ''c-1'' (Some (JObj [(''result'', JNum 3)]))) calling)) ! 1
      = Resolved (Some (JObj [(''result'', JNum 3)]))\<close>
proof -
  have h: "handlers calling = [\<lparr>name = ''c-1'', type = Callback, handler = Settle 1\<rparr>]"
    and p: "promises calling ! 1 = Pending" "1 < length (promises calling)"
    by (simp_all add: scenario_defs model_defs Let_def)
  have f: "\<And>d. findHandler (handlers calling)
           (Some (JStr (String scenario_env (get_prop (reply ''c-1'' d) ''i''))))
           (Some (JStr ''callback'')) = Some \<lparr>name = ''c-1'', type = Callback, handler = Settle 1\<rparr>"
    using h by (simp add: findHandler_def matches_def String_def reply_def)
  from callback_settles_pending_call
         [OF _ f _ p(2) p(1), of "Some (JObj [(''status'', JNum 500)])" "JObj [(''status'', JNum 500)]"]
  have a: "promises (state_of (handle scenario_env
        (reply ''c-1'' (Some (JObj [(''status'', JNum 500)]))) calling)) ! 1
      = Rejected (ResponseCode (JNum 500))"
    by (simp add: reply_def)
  from callback_settles_pending_call
         [OF _ f _ p(2) p(1), of "Some (JObj [(''result'', JNum 3)])" "JObj [(''result'', JNum 3)]"]
  have b: "promises (state_of (handle scenario_env
        (reply ''c-1'' (Some (JObj [(''result'', JNum 3)]))) calling)) ! 1
      = Resolved (Some (JObj [(''result'', JNum 3)]))"
    by (simp add: reply_def)
  from a b p show ?thesis by simp
qed

text \<open>
  The claim as it was written has the reply \<^verbatim>\<open>{status:200, result:3}\<close> settle the call
  with \<^verbatim>\<open>{result:3}\<close>. The call is settled with the payload as it came.
\<close>

theorem status_200_reply_counterexample:
  \<open>promises (step scenario_env
      (SockMessage 0 ''{"t":"callback","i":"c-1","d":{"status":200,"result":3}}'') calling) ! 1
     = Resolved (Some (JObj [(''status'', JNum 200), (''result'', JNum 3)]))
   \<and> promises (step scenario_env
      (SockMessage 0 ''{"t":"callback","i":"c-1","d":{"status":200,"result":3}}'') calling) ! 1
     \<noteq> Resolved (Some (JObj [(''result'', JNum 3)]))\<close>
  by (simp add: scenario_defs model_defs Let_def)

subsection \<open>One-shot entries and a handler that throws\<close>

text \<open>
  C2 says that a one-shot entry is removed after its first dispatch whatever the outcome,
  so that a second identical callback is a routing error. With \<^verbatim>\<open>c-1\<close> pending, the
  callback \<^verbatim>\<open>{"t":"callback","i":"c-1"}\<close> delivered twice invokes the closure of the call
  twice; no error event is emitted, the entry is still registered and the promise is
  still pending.
\<close>

theorem throwing_one_shot_is_invoked_again:
  \<open>trace (run scenario_env
       [SockMessage 0 ''{"t":"callback","i":"c-1"}'', SockMessage 0 ''{"t":"callback","i":"c-1"}'']
       calling)
     = trace calling @ [Invoked (Settle 1) (reply ''c-1'' None), Invoked (Settle 1) (reply ''c-1'' None)]
   \<and> handlers (run scenario_env
       [SockMessage 0 ''{"t":"callback","i":"c-1"}'', SockMessage 0 ''{"t":"callback","i":"c-1"}'']
       calling)
     = [\<lparr>name = ''c-1'', type = Callback, handler = Settle 1\<rparr>]
   \<and> promises (run scenario_env
       [SockMessage 0 ''{"t":"callback","i":"c-1"}'', SockMessage 0 ''{"t":"callback","i":"c-1"}'']
       calling) ! 1 = Pending
   \<and> thrown (on_message scenario_env ''{"t":"callback","i":"c-1"}'' calling) = Some TypeError\<close>
  by (simp add: scenario_defs model_defs Let_def)

subsection \<open>destroy on a session that never connected\<close>

text \<open>
  C6 says that \<^verbatim>\<open>destroy()\<close> succeeds from any state, a freshly constructed session
  included. On a fresh session \<^verbatim>\<open>this.socket\<close> is still undefined:
  \<^verbatim>\<open>this.socket.close()\<close> throws, and the assignment to \<^verbatim>\<open>destroyed\<close> after it is
  never reached.
\<close>

theorem destroy_before_connect_throws:
  "destroy (new_Client sid u) = Throw TypeError (new_Client sid u)
   \<and> destroyed (state_of (destroy (new_Client sid u))) = False"
  by (simp add: destroy_def new_Client_def)

section \<open>Correlation ids and the registry\<close>

subsection \<open>Facts about correlation ids\<close>

lemma digit_inj: "m < 10 \<Longrightarrow> n < 10 \<Longrightarrow> digit m = digit n \<Longrightarrow> m = n"
proof -
  assume m: "m < 10" and n: "n < 10" and e: "digit m = digit n"
  have d: "distinct ''0123456789''" by simp
  have l: "length ''0123456789'' = 10" by simp
  from e have "''0123456789'' ! m = ''0123456789'' ! n" by (simp add: digit_def)
  with d m n l show "m = n" by (simp add: nth_eq_iff_index_eq)
qed

lemma dec_length: "0 < length (dec n)"
  by (subst dec.simps) simp

lemma dec_long: "\<not> n < 10 \<Longrightarrow> 2 \<le> length (dec n)"
proof -
  assume a: "\<not> n < 10"
  then have "dec n = dec (n div 10) @ [digit (n mod 10)]" by (subst dec.simps) simp
  then have "length (dec n) = Suc (length (dec (n div 10)))" by simp
  with dec_length[of "n div 10"] show ?thesis by linarith
qed

lemma dec_inj: "dec m = dec n \<Longrightarrow> m = n"
proof (induction m arbitrary: n rule: dec.induct)
  case (1 m)
  show ?case
  proof (cases "m < 10")
    case True
    then have dm: "dec m = [digit m]" by (rule dec_small)
    show ?thesis
    proof (cases "n < 10")
      case n: True
      with dm "1.prems" True show ?thesis by (simp add: dec_small digit_inj)
    next
      case False
      from dec_long[OF False] dm "1.prems" show ?thesis by simp
    qed
  next
    case False
    then have dm: "dec m = dec (m div 10) @ [digit (m mod 10)]" by (subst dec.simps) simp
    show ?thesis
    proof (cases "n < 10")
      case True
      with dec_long[OF False] "1.prems" show ?thesis by (simp add: dec_small)
    next
      case n: False
      then have dn: "dec n = dec (n div 10) @ [digit (n mod 10)]" by (subst dec.simps) simp
      from dm dn "1.prems" have a: "dec (m div 10) = dec (n div 10)"
        and b: "digit (m mod 10) = digit (n mod 10)" by simp_all
      from "1.IH"[OF False a] have q: "m div 10 = n div 10" .
      from b have r: "m mod 10 = n mod 10" by (intro digit_inj) simp_all
      from q r show ?thesis by (metis div_mult_mod_eq)
    qed
  qed
qed

lemma correlation_id_inj: "correlation_id sid j = correlation_id sid k \<longleftrightarrow> j = k"
  by (auto simp: correlation_id_def dest: dec_inj)

subsection \<open>What a step does to the registry\<close>

lemma reg_same_refl [simp]: "reg_same s s"
  by (simp add: reg_same_def)

lemma length_promises_settle [simp]: "length (promises (settle p v s)) = length (promises s)"
  by (simp add: settle_def)

lemma callbacks_settle [simp]: "callbacks (settle p v s) = callbacks s"
  by (simp add: settle_def)

lemma id_s_settle [simp]: "id_s (settle p v s) = id_s s"
  by (simp add: settle_def)

lemma settle_handler_registry:
  "reg_same s (state_of (settle_handler p pkt s)) \<and> id_s (state_of (settle_handler p pkt s)) = id_s s"
  by (simp add: settle_handler_def reg_same_def resolve_def reject_def
           split: option.splits json.splits)

lemma invoke_registry:
  "reg_same s (state_of (invoke E h pkt s)) \<and> id_s (state_of (invoke E h pkt s)) = id_s s"
proof (cases "handler h")
  case (Settle p)
  with settle_handler_registry[of "observe (Invoked (Settle p) pkt) s" p pkt] show ?thesis
    by (simp add: invoke_def reg_same_def observe_def)
next
  case (User u)
  then show ?thesis
    by (simp add: invoke_def Let_def reg_same_def observe_def split: option.splits)
qed

lemma handle_registry:
  "(reg_same s (state_of (handle E pkt s)) \<or> reg_removed s (state_of (handle E pkt s)))
   \<and> id_s (state_of (handle E pkt s)) = id_s s"
proof (cases "get_prop pkt ''t'' = Some (JStr ''callback'')")
  case True
  let ?f = "findHandler (handlers s) (Some (JStr (String E (get_prop pkt ''i''))))
              (Some (JStr ''callback''))"
  show ?thesis
  proof (cases ?f)
    case None
    with True show ?thesis by (simp add: handle_def emit_def observe_def reg_same_def)
  next
    case (Some h)
    from findHandler_Some[OF Some] have mem: "h \<in> set (handlers s)" by simp
    show ?thesis
    proof (cases "invoke E h pkt s")
      case (Return s1)
      with invoke_registry[of s E h pkt] have r: "reg_same s s1" "id_s s1 = id_s s" by simp_all
      from True Some Return indexOf_member[OF mem]
      have "state_of (handle E pkt s) = s1\<lparr>handlers := remove1 h (handlers s)\<rparr>"
        using r(1) mem by (simp add: handle_def splice_at_indexOf reg_same_def)
      with r mem show ?thesis by (auto simp: reg_removed_def reg_same_def)
    next
      case (Throw e s1)
      with invoke_registry[of s E h pkt] have r: "reg_same s s1" "id_s s1 = id_s s" by simp_all
      from True Some Throw have "state_of (handle E pkt s) = s1" by (simp add: handle_def)
      with r show ?thesis by simp
    qed
  qed
next
  case False
  show ?thesis
  proof (cases "findHandler (handlers s) (get_prop pkt ''n'') (get_prop pkt ''t'')")
    case None
    with False show ?thesis by (simp add: handle_def emit_def observe_def reg_same_def)
  next
    case (Some h)
    with False invoke_registry[of s E h pkt] show ?thesis
      by (cases "invoke E h pkt s") (simp_all add: handle_def)
  qed
qed

lemma send_registry:
  "reg_call s (snd (send ty p data s)) \<and> id_s (snd (send ty p data s)) = id_s s"
  by (simp add: send_def Let_def write_pd_def observe_def reject_def settle_def reg_call_def
           split: option.splits)

lemma connect_socket_registry:
  "reg_same s (connect_socket k s) \<and> id_s (connect_socket k s) = id_s s"
  by (simp add: connect_socket_def Let_def reg_same_def)

lemma connect_begin_registry:
  "reg_same s (connect_begin s) \<and> id_s (connect_begin s) = id_s s"
  by (simp add: connect_begin_def connect_socket_def Let_def reg_same_def)

lemma step_registry:
  "(reg_same s (step E i s) \<or> reg_call s (step E i s) \<or> reg_user s (step E i s)
      \<or> reg_removed s (step E i s))
   \<and> id_s (step E i s) = id_s s"
proof (cases i)
  case DoConnect
  with connect_begin_registry[of s] show ?thesis by simp
next
  case (TokenSettled k r)
  then show ?thesis
    by (simp add: connect_token_def connect_socket_def Let_def reg_same_def)
next
  case (SockOpen k)
  show ?thesis
  proof (cases "if k < length (tasks s) then tasks s ! k else Done")
    case (AwaitOpen n)
    let ?s0 = "observe (Opened k n) (socket_opened n s)"
    obtain p s1 where c: "call ''auth/login'' (Some (login_payload s)) ?s0 = (p, s1)"
      by (cases "call ''auth/login'' (Some (login_payload s)) ?s0") auto
    with send_registry[of ?s0 Call "''auth/login''" "Some (login_payload s)"]
    have "reg_call ?s0 s1" "id_s s1 = id_s ?s0" by (simp_all add: call_def)
    then have "reg_call s (s1\<lparr>tasks := (tasks s1)[k := AwaitLogin p]\<rparr>)"
      and "id_s (s1\<lparr>tasks := (tasks s1)[k := AwaitLogin p]\<rparr>) = id_s s"
      by (simp_all add: reg_call_def observe_def socket_opened_def)
    with SockOpen AwaitOpen c show ?thesis by (simp add: connect_open_def)
  qed (simp_all add: SockOpen connect_open_def reg_same_def)
next
  case (LoginSettled k)
  then show ?thesis
    by (simp add: connect_login_def emit_def observe_def reg_same_def
             split: task.splits settlement.splits)
next
  case (SockMessage n data)
  with handle_registry[of s E "parseJSON E data JNull"] show ?thesis
    by (auto simp: on_message_def Let_def)
next
  case (SockError n err)
  then show ?thesis by (simp add: on_error_def emit_def observe_def reg_same_def)
next
  case (SockClose n code)
  then show ?thesis
    by (simp add: on_close_def setTimeout_def emit_def observe_def Let_def reg_same_def
          socket_closed_def)
next
  case (TimerFire j)
  with connect_begin_registry[of "s\<lparr>timers := splice_at (timers s) j\<rparr>"] show ?thesis
    by (simp add: timer_fire_def Let_def reg_same_def)
next
  case DoDestroy
  then show ?thesis by (simp add: destroy_def reg_same_def split: option.splits)
next
  case (DoSend ty p data)
  with send_registry[of s ty p data] show ?thesis by simp
next
  case (DoRegister nm ty u)
  then show ?thesis by (auto simp: registerHandler_def reg_user_def)
next
  case DoOnError
  then show ?thesis by (simp add: on_error_listener_def reg_same_def)
next
  case DoOffError
  then show ?thesis by (simp add: off_error_listener_def reg_same_def)
qed

subsection \<open>The registry invariant\<close>

lemma distinct_map_remove1: "distinct (map f xs) \<Longrightarrow> distinct (map f (remove1 x xs))"
proof (induction xs)
  case Nil
  then show ?case by simp
next
  case (Cons y ys)
  have "set (remove1 x ys) \<subseteq> set ys" by (rule set_remove1_subset)
  with Cons show ?case by auto
qed

lemma registry_ok_step:
  assumes ok: "registry_ok sid s"
  shows "registry_ok sid (step E i s)"
proof -
  let ?s' = "step E i s"
  from step_registry[of s E i]
  have id: "id_s ?s' = id_s s"
    and eff: "reg_same s ?s' \<or> reg_call s ?s' \<or> reg_user s ?s' \<or> reg_removed s ?s'"
    by simp_all
  from ok have sid: "id_s s = sid"
    and ent: "\<forall>h\<in>set (pending s).
           type h = Callback \<and> (\<exists>k<callbacks s. name h = correlation_id sid k)
           \<and> (\<exists>p<length (promises s). handler h = Settle p)"
    and dn: "distinct (map name (pending s))" and dh: "distinct (map handler (pending s))"
    by (simp_all add: registry_ok_def)
  from eff show ?thesis
  proof (elim disjE)
    assume "reg_same s ?s'"
    with ok id show ?thesis by (simp add: registry_ok_def reg_same_def pending_def)
  next
    assume r: "reg_call s ?s'"
    let ?h = "\<lparr>name = correlation_id (id_s s) (callbacks s), type = Callback,
               handler = Settle (length (promises s))\<rparr>"
    from r have p: "pending ?s' = pending s @ [?h]"
      and c: "callbacks ?s' = Suc (callbacks s)"
      and l: "length (promises ?s') = Suc (length (promises s))"
      by (simp_all add: reg_call_def pending_def is_oneshot_def)
    have fresh_name: "name ?h \<notin> name ` set (pending s)"
    proof
      assume "name ?h \<in> name ` set (pending s)"
      then obtain g where g: "g \<in> set (pending s)" "name g = name ?h" by auto
      with ent obtain k where "k < callbacks s" "name g = correlation_id sid k" by blast
      with g(2) sid show False by (simp add: correlation_id_inj)
    qed
    have fresh_fn: "handler ?h \<notin> handler ` set (pending s)"
    proof
      assume "handler ?h \<in> handler ` set (pending s)"
      then obtain g where g: "g \<in> set (pending s)" "handler g = handler ?h" by auto
      with ent obtain q where "q < length (promises s)" "handler g = Settle q" by blast
      with g(2) show False by simp
    qed
    have new: "type ?h = Callback \<and> (\<exists>k<callbacks ?s'. name ?h = correlation_id sid k)
           \<and> (\<exists>q<length (promises ?s'). handler ?h = Settle q)"
      using c l sid by auto
    from ent c l have old: "\<forall>h\<in>set (pending s).
           type h = Callback \<and> (\<exists>k<callbacks ?s'. name h = correlation_id sid k)
           \<and> (\<exists>q<length (promises ?s'). handler h = Settle q)"
      by (metis less_Suc_eq)
    from p new old have "\<forall>h\<in>set (pending ?s').
           type h = Callback \<and> (\<exists>k<callbacks ?s'. name h = correlation_id sid k)
           \<and> (\<exists>q<length (promises ?s'). handler h = Settle q)"
      by auto
    moreover from p dn fresh_name have "distinct (map name (pending ?s'))" by simp
    moreover from p dh fresh_fn have "distinct (map handler (pending ?s'))" by simp
    ultimately show ?thesis using id sid by (simp add: registry_ok_def)
  next
    assume "reg_user s ?s'"
    then have "pending ?s' = pending s" "callbacks ?s' = callbacks s"
      "length (promises ?s') = length (promises s)"
      by (auto simp: reg_user_def pending_def is_oneshot_def)
    with ok id show ?thesis by (simp add: registry_ok_def)
  next
    assume "reg_removed s ?s'"
    then obtain h where h: "handlers ?s' = remove1 h (handlers s)"
      and c: "callbacks ?s' = callbacks s"
      and l: "length (promises ?s') = length (promises s)"
      by (auto simp: reg_removed_def)
    from h have p: "pending ?s' = remove1 h (pending s)"
      by (simp add: pending_def filter_remove1)
    then have sub: "set (pending ?s') \<subseteq> set (pending s)"
      by (simp add: set_remove1_subset)
    from sub ent c l have "\<forall>h\<in>set (pending ?s').
           type h = Callback \<and> (\<exists>k<callbacks ?s'. name h = correlation_id sid k)
           \<and> (\<exists>q<length (promises ?s'). handler h = Settle q)"
      by auto
    moreover from p dn have "distinct (map name (pending ?s'))"
      by (simp add: distinct_map_remove1)
    moreover from p dh have "distinct (map handler (pending ?s'))"
      by (simp add: distinct_map_remove1)
    ultimately show ?thesis using id sid by (simp add: registry_ok_def)
  qed
qed

lemma registry_ok_run: "registry_ok sid s \<Longrightarrow> registry_ok sid (run E ins s)"
  by (induction ins arbitrary: s) (simp_all add: registry_ok_step)

lemma registry_ok_new: "registry_ok sid (new_Client sid u)"
  by (simp add: registry_ok_def new_Client_def pending_def)

lemma trace_settle [simp]: "trace (settle p v s) = trace s"
  by (simp add: settle_def)

lemma promises_settle_other: "q \<noteq> p \<Longrightarrow> promises (settle p v s) ! q = promises s ! q"
  by (simp add: settle_def)

lemma settle_handler_trace: "trace (state_of (settle_handler p pkt s)) = trace s"
  by (simp add: settle_handler_def resolve_def reject_def split: option.splits json.splits)

lemma settle_handler_other:
  "q \<noteq> p \<Longrightarrow> promises (state_of (settle_handler p pkt s)) ! q = promises s ! q"
  by (simp add: settle_handler_def resolve_def reject_def promises_settle_other
           split: option.splits json.splits)

lemma handle_one_shot:
  assumes t: "get_prop pkt ''t'' = Some (JStr ''callback'')"
    and f: "findHandler (handlers s) (Some (JStr (String E (get_prop pkt ''i''))))
              (Some (JStr ''callback'')) = Some h"
    and h: "handler h = Settle p"
  shows "trace (state_of (handle E pkt s)) = trace s @ [Invoked (Settle p) pkt]"
    and "q \<noteq> p \<Longrightarrow> promises (state_of (handle E pkt s)) ! q = promises s ! q"
proof -
  let ?s1 = "observe (Invoked (Settle p) pkt) s"
  from h have inv: "invoke E h pkt s = settle_handler p pkt ?s1" by (simp add: invoke_def)
  have tr: "trace (state_of (settle_handler p pkt ?s1)) = trace s @ [Invoked (Settle p) pkt]"
    by (simp add: settle_handler_trace observe_def)
  from t f inv tr show "trace (state_of (handle E pkt s)) = trace s @ [Invoked (Settle p) pkt]"
    by (cases "settle_handler p pkt ?s1") (simp_all add: handle_def)
  assume "q \<noteq> p"
  then have "promises (state_of (settle_handler p pkt ?s1)) ! q = promises s ! q"
    by (simp add: settle_handler_other observe_def)
  with t f inv show "promises (state_of (handle E pkt s)) ! q = promises s ! q"
    by (cases "settle_handler p pkt ?s1") (simp_all add: handle_def)
qed

lemma lookup_pending:
  assumes ok: "registry_ok sid s"
    and h: "h \<in> set (pending s)"
    and ns: "\<not> shadowed s (name h)"
  shows "findHandler (handlers s) (Some (JStr (name h))) (Some (JStr ''callback'')) = Some h"
proof -
  let ?f = "findHandler (handlers s) (Some (JStr (name h))) (Some (JStr ''callback''))"
  from h have hin: "h \<in> set (handlers s)" and hone: "is_oneshot h" by (simp_all add: pending_def)
  from ok h have ht: "type h = Callback" by (simp add: registry_ok_def)
  then have hm: "matches (Some (JStr (name h))) (Some (JStr ''callback'')) h"
    by (simp add: matches_def)
  with hin have "?f \<noteq> None" by (auto simp: findHandler_None)
  then obtain g where g: "?f = Some g" by auto
  from findHandler_Some[OF g] have gin: "g \<in> set (handlers s)"
    and gm: "matches (Some (JStr (name h))) (Some (JStr ''callback'')) g" by simp_all
  from gm have gn: "name g = name h" and gt: "type g = Callback"
    by (auto simp: matches_def tag_inj[of _ Callback, simplified])
  from ns gin gn gt have "is_oneshot g" by (auto simp: shadowed_def list_ex_iff)
  with gin have gp: "g \<in> set (pending s)" by (simp add: pending_def)
  from ok have "distinct (map name (pending s))" by (simp add: registry_ok_def)
  then have "inj_on name (set (pending s))" by (simp add: distinct_map)
  with gp h gn have "g = h" by (auto dest: inj_onD)
  with g show ?thesis by simp
qed

subsection \<open>Correlation ids\<close>

text \<open>
  C3, as amended. In every state a session can reach, the correlation ids of the pending
  calls are pairwise distinct, each being the session id followed by a value the counter
  has passed, and no two pending calls settle the same promise. An inbound callback that
  carries the id of a pending call is dispatched to the closure of that call, and to
  nothing else, and leaves the promises of all other calls as they were, provided the
  caller has not registered a handler of their own under kind callback with that id as its
  name.
\<close>

theorem correlation_ids_unique:
  assumes "s = run E ins (new_Client sid u)"
  shows "distinct (pending_ids s)
    \<and> (\<forall>h\<in>set (pending s). \<exists>k<callbacks s. name h = correlation_id sid k)
    \<and> (\<forall>h\<in>set (pending s). \<forall>p.
          handler h = Settle p \<longrightarrow> \<not> shadowed s (name h) \<longrightarrow>
          get_prop pkt ''t'' = Some (JStr ''callback'') \<longrightarrow>
          get_prop pkt ''i'' = Some (JStr (name h)) \<longrightarrow>
            trace (state_of (handle E pkt s)) = trace s @ [Invoked (Settle p) pkt]
            \<and> (\<forall>q. q \<noteq> p \<longrightarrow> promises (state_of (handle E pkt s)) ! q = promises s ! q)
            \<and> (\<forall>g\<in>set (pending s). g \<noteq> h \<longrightarrow> handler g \<noteq> Settle p \<and> name g \<noteq> name h))"
proof -
  from assms have ok: "registry_ok sid s"
    by (simp add: registry_ok_run registry_ok_new)
  then have dn: "distinct (map name (pending s))" and dh: "distinct (map handler (pending s))"
    by (simp_all add: registry_ok_def)
  from dn have a: "distinct (pending_ids s)" by (simp add: pending_ids_def)
  from ok have b: "\<forall>h\<in>set (pending s). \<exists>k<callbacks s. name h = correlation_id sid k"
    by (simp add: registry_ok_def)
  have c: "\<forall>h\<in>set (pending s). \<forall>p.
          handler h = Settle p \<longrightarrow> \<not> shadowed s (name h) \<longrightarrow>
          get_prop pkt ''t'' = Some (JStr ''callback'') \<longrightarrow>
          get_prop pkt ''i'' = Some (JStr (name h)) \<longrightarrow>
            trace (state_of (handle E pkt s)) = trace s @ [Invoked (Settle p) pkt]
            \<and> (\<forall>q. q \<noteq> p \<longrightarrow> promises (state_of (handle E pkt s)) ! q = promises s ! q)
            \<and> (\<forall>g\<in>set (pending s). g \<noteq> h \<longrightarrow> handler g \<noteq> Settle p \<and> name g \<noteq> name h)"
  proof (intro ballI allI impI)
    fix h p
    assume h: "h \<in> set (pending s)" and hp: "handler h = Settle p"
      and ns: "\<not> shadowed s (name h)"
      and t: "get_prop pkt ''t'' = Some (JStr ''callback'')"
      and i: "get_prop pkt ''i'' = Some (JStr (name h))"
    from lookup_pending[OF ok h ns] i
    have f: "findHandler (handlers s) (Some (JStr (String E (get_prop pkt ''i''))))
              (Some (JStr ''callback'')) = Some h"
      by (simp add: String_def)
    from dh have ih: "inj_on handler (set (pending s))" by (simp add: distinct_map)
    from dn have inn: "inj_on name (set (pending s))" by (simp add: distinct_map)
    have others: "\<forall>g\<in>set (pending s). g \<noteq> h \<longrightarrow> handler g \<noteq> Settle p \<and> name g \<noteq> name h"
    proof (intro ballI impI)
      fix g
      assume g: "g \<in> set (pending s)" and ne: "g \<noteq> h"
      from inj_onD[OF ih _ g h] ne hp have "handler g \<noteq> Settle p" by auto
      moreover from inj_onD[OF inn _ g h] ne have "name g \<noteq> name h" by auto
      ultimately show "handler g \<noteq> Settle p \<and> name g \<noteq> name h" by simp
    qed
    from handle_one_shot[OF t f hp] others
    show "trace (state_of (handle E pkt s)) = trace s @ [Invoked (Settle p) pkt]
            \<and> (\<forall>q. q \<noteq> p \<longrightarrow> promises (state_of (handle E pkt s)) ! q = promises s ! q)
            \<and> (\<forall>g\<in>set (pending s). g \<noteq> h \<longrightarrow> handler g \<noteq> Settle p \<and> name g \<noteq> name h)"
      by simp
  qed
  from a b c show ?thesis by simp
qed

theorem correlation_ids_unique_witness:
  "pending_ids calling_twice = [''c-1'', ''c-2'']
   \<and> distinct (pending_ids calling_twice)
   \<and> \<not> shadowed calling_twice ''c-2''
   \<and> trace (state_of (handle scenario_env (reply ''c-2'' (Some (JObj []))) calling_twice))
       = trace calling_twice @ [Invoked (Settle 2) (reply ''c-2'' (Some (JObj [])))]
   \<and> promises (state_of (handle scenario_env (reply ''c-2'' (Some (JObj []))) calling_twice)) ! 1
       = promises calling_twice ! 1"
proof -
  let ?pkt = "reply ''c-2'' (Some (JObj []))"
  let ?h = "\<lparr>name = ''c-2'', type = Callback, handler = Settle 2\<rparr>"
  have reach: \<open>calling_twice =
     run scenario_env
       [DoConnect, TokenSettled 0 None, SockOpen 0,
        SockMessage 0 ''{"t":"callback","i":"c-0","d":{}}'', LoginSettled 0,
        DoSend Call ''math/add'' (Some (JObj [(''a'', JNum 1), (''b'', JNum 2)])),
        DoSend Watch ''feed/ticks'' None]
       (new_Client ''c'' scenario_options)\<close>
    by (simp add: calling_twice_def calling_def connected_def)
  have p: "pending calling_twice = [\<lparr>name = ''c-1'', type = Callback, handler = Settle 1\<rparr>, ?h]"
    by (simp add: calling_twice_def scenario_defs model_defs pending_def is_oneshot_def Let_def)
  then have ids: "pending_ids calling_twice = [''c-1'', ''c-2'']"
    by (simp add: pending_ids_def)
  have ns: "\<not> shadowed calling_twice ''c-2''"
    by (simp add: calling_twice_def scenario_defs model_defs shadowed_def is_oneshot_def Let_def)
  note T = correlation_ids_unique [OF reach, where pkt = ?pkt]
  from T have d: "distinct (pending_ids calling_twice)" by (rule conjunct1)
  from T p ns
  have "trace (state_of (handle scenario_env ?pkt calling_twice))
          = trace calling_twice @ [Invoked (Settle 2) ?pkt]
        \<and> promises (state_of (handle scenario_env ?pkt calling_twice)) ! 1
          = promises calling_twice ! 1"
    by (simp add: reply_def)
  with ids d ns show ?thesis by simp
qed

text \<open>
  The claim as it was written holds for every session. When the caller has registered a
  handler of their own under kind callback and the name \<^verbatim>\<open>c-1\<close>, the reply to the call
  \<^verbatim>\<open>c-1\<close> goes to that handler: the closure of the call is not invoked and its promise
  stays pending.
\<close>

theorem shadowed_call_counterexample:
  \<open>pending_ids hijacked = [''c-1'']
   \<and> promises hijacked ! 1 = Pending
   \<and> trace (step scenario_env
        (SockMessage 0 ''{"t":"callback","i":"c-1","d":{"status":200,"result":3}}'') hijacked)
      = trace hijacked
        @ [Invoked (User 7)
             (reply ''c-1'' (Some (JObj [(''status'', JNum 200), (''result'', JNum 3)])))]
   \<and> promises (step scenario_env
        (SockMessage 0 ''{"t":"callback","i":"c-1","d":{"status":200,"result":3}}'') hijacked) ! 1
      = Pending\<close>
  by (simp add: hijacked_def scenario_defs model_defs pending_ids_def pending_def
        is_oneshot_def Let_def)

section \<open>Reconnecting\<close>

subsection \<open>What a step adds to the observations\<close>

lemma since_connect_append:
  "since_connect acc (xs @ ys) = since_connect (since_connect acc xs) ys"
  by (induction xs arbitrary: acc) simp_all

lemma since_connect_quiet:
  "list_all quiet ext \<Longrightarrow> since_connect acc ext = acc @ ext"
proof (induction ext arbitrary: acc)
  case Nil
  then show ?case by simp
next
  case (Cons x ext)
  from Cons.prems have "x \<noteq> Emitted EvConnect" by auto
  with Cons show ?case by simp
qed

lemma quiet_silent: "quiet x \<Longrightarrow> delay_of x = [] \<and> \<not> is_closure x"
  by (cases x rule: quiet.cases) simp_all

lemma quiet_delays: "list_all quiet ext \<Longrightarrow> concat (map delay_of ext) = []"
  by (induction ext) (simp_all add: quiet_silent)

lemma quiet_closures: "list_all quiet ext \<Longrightarrow> filter is_closure ext = []"
  by (induction ext) (simp_all add: quiet_silent)

lemma settle_handler_conn:
  "reconnectTries (state_of (settle_handler p pkt s)) = reconnectTries s
   \<and> opts (state_of (settle_handler p pkt s)) = opts s
   \<and> tasks (state_of (settle_handler p pkt s)) = tasks s"
  by (simp add: settle_handler_def resolve_def reject_def settle_def
           split: option.splits json.splits)

lemma invoke_observed:
  "trace (state_of (invoke E h pkt s)) = trace s @ [Invoked (handler h) pkt]
   \<and> reconnectTries (state_of (invoke E h pkt s)) = reconnectTries s
   \<and> opts (state_of (invoke E h pkt s)) = opts s
   \<and> tasks (state_of (invoke E h pkt s)) = tasks s"
proof (cases "handler h")
  case (Settle p)
  with settle_handler_conn[of p pkt "observe (Invoked (Settle p) pkt) s"]
    settle_handler_trace[of p pkt "observe (Invoked (Settle p) pkt) s"]
  show ?thesis by (simp add: invoke_def observe_def)
next
  case (User u)
  then show ?thesis by (simp add: invoke_def Let_def observe_def split: option.splits)
qed

lemma handle_observed:
  "(\<exists>ext. trace (state_of (handle E pkt s)) = trace s @ ext \<and> list_all quiet ext)
   \<and> reconnectTries (state_of (handle E pkt s)) = reconnectTries s
   \<and> opts (state_of (handle E pkt s)) = opts s
   \<and> tasks (state_of (handle E pkt s)) = tasks s"
proof -
  obtain h index where hi:
    "(if get_prop pkt ''t'' = Some (JStr ''callback'')
         then (let h = findHandler (handlers s) (Some (JStr (String E (get_prop pkt ''i''))))
                         (Some (JStr ''callback''))
               in (h, case h of None \<Rightarrow> - 1 | Some x \<Rightarrow> indexOf (handlers s) x))
         else (findHandler (handlers s) (get_prop pkt ''n'') (get_prop pkt ''t''), - 1))
     = (h, index)"
    by (metis surj_pair)
  show ?thesis
  proof (cases h)
    case None
    with hi have "handle E pkt s = emit (EvError InvalidPacket) s"
      by (simp add: handle_def)
    then show ?thesis by (simp add: emit_def observe_def)
  next
    case (Some x)
    show ?thesis
    proof (cases "invoke E x pkt s")
      case (Return s1)
      with hi Some have "state_of (handle E pkt s) =
          (if index > - 1 then s1\<lparr>handlers := splice_at (handlers s1) (nat index)\<rparr> else s1)"
        by (simp add: handle_def)
      with invoke_observed[of E x pkt s] Return show ?thesis by simp
    next
      case (Throw e s1)
      with hi Some have "state_of (handle E pkt s) = s1" by (simp add: handle_def)
      with invoke_observed[of E x pkt s] Throw show ?thesis by simp
    qed
  qed
qed

lemma send_observed:
  "(\<exists>pd. trace (snd (send ty p data s)) = trace s @ [Requested (fst (send ty p data s)) pd]
          \<and> pd_s pd = Some (service_of p) \<and> pd_n pd = Some (action_of p) \<and> pd_t pd = ty
          \<and> pd_d pd = data)
   \<and> fst (send ty p data s) = length (promises s)
   \<and> reconnectTries (snd (send ty p data s)) = reconnectTries s
   \<and> opts (snd (send ty p data s)) = opts s
   \<and> tasks (snd (send ty p data s)) = tasks s"
  by (simp add: send_def Let_def write_pd_def observe_def reject_def settle_def
           split: option.splits)

lemma connect_begin_observed:
  "trace (connect_begin s) = trace s \<and> reconnectTries (connect_begin s) = reconnectTries s
   \<and> backoff (connect_begin s) = backoff s
   \<and> autoReconnect (opts (connect_begin s)) = autoReconnect (opts s)"
  by (simp add: connect_begin_def connect_socket_def Let_def backoff_def fun_eq_iff)

text \<open>
  A step adds nothing of interest to the backoff and leaves the counter alone, or it is a
  closure, or it is the end of a successful \<^verbatim>\<open>connect\<close>.
\<close>

lemma step_observed:
  "(\<exists>ext. trace (step E i s) = trace s @ ext \<and> list_all quiet ext
          \<and> reconnectTries (step E i s) = reconnectTries s)
   \<or> (\<exists>n code. i = SockClose n code \<and> n < length (sockets s) \<and> autoReconnect (opts s)
          \<and> trace (step E i s)
              = trace s @ [Emitted (EvClose code), Scheduled (backoff s (Suc (reconnectTries s)))]
          \<and> timers (step E i s) = timers s @ [backoff s (Suc (reconnectTries s))]
          \<and> reconnectTries (step E i s) = Suc (reconnectTries s))
   \<or> (\<exists>n code. i = SockClose n code \<and> n < length (sockets s) \<and> \<not> autoReconnect (opts s)
          \<and> trace (step E i s) = trace s @ [Emitted (EvClose code)]
          \<and> reconnectTries (step E i s) = reconnectTries s)
   \<or> (\<exists>k p v. i = LoginSettled k \<and> k < length (tasks s) \<and> tasks s ! k = AwaitLogin p
          \<and> p < length (promises s) \<and> promises s ! p = Resolved v
          \<and> trace (step E i s) = trace s @ [Emitted EvConnect]
          \<and> reconnectTries (step E i s) = 0)"
proof (cases i)
  case DoConnect
  with connect_begin_observed[of s] show ?thesis by simp
next
  case (TokenSettled k r)
  then show ?thesis by (simp add: connect_token_def connect_socket_def Let_def)
next
  case (SockOpen k)
  show ?thesis
  proof (cases "if k < length (tasks s) then tasks s ! k else Done")
    case (AwaitOpen n)
    let ?s0 = "observe (Opened k n) (socket_opened n s)"
    obtain p s1 where c: "send Call ''auth/login'' (Some (login_payload s)) ?s0 = (p, s1)"
      by (cases "send Call ''auth/login'' (Some (login_payload s)) ?s0") auto
    with send_observed[of Call "''auth/login''" "Some (login_payload s)" ?s0]
    obtain pd where "trace s1 = trace s @ [Opened k n, Requested p pd]"
      and "reconnectTries s1 = reconnectTries s"
      by (auto simp: observe_def socket_opened_def)
    with SockOpen AwaitOpen c show ?thesis by (simp add: connect_open_def call_def)
  qed (simp_all add: SockOpen connect_open_def)
next
  case (LoginSettled k)
  show ?thesis
  proof (cases "if k < length (tasks s) then tasks s ! k else Done")
    case (AwaitLogin p)
    then have k: "k < length (tasks s)" "tasks s ! k = AwaitLogin p"
      by (simp_all split: if_splits)
    show ?thesis
    proof (cases "if p < length (promises s) then promises s ! p else Pending")
      case (Resolved v)
      then have "p < length (promises s)" "promises s ! p = Resolved v"
        by (simp_all split: if_splits)
      with LoginSettled AwaitLogin k Resolved show ?thesis
        by (simp add: connect_login_def emit_def observe_def)
    qed (simp_all add: LoginSettled AwaitLogin connect_login_def)
  qed (simp_all add: LoginSettled connect_login_def)
next
  case (SockMessage n data)
  with handle_observed[of E "parseJSON E data JNull" s] show ?thesis
    by (auto simp: on_message_def Let_def)
next
  case (SockError n err)
  then show ?thesis by (simp add: on_error_def emit_def observe_def)
next
  case (SockClose n code)
  then show ?thesis
    by (simp add: on_close_def setTimeout_def emit_def observe_def Let_def backoff_def
          socket_closed_def)
next
  case (TimerFire j)
  with connect_begin_observed[of "s\<lparr>timers := splice_at (timers s) j\<rparr>"] show ?thesis
    by (simp add: timer_fire_def Let_def)
next
  case DoDestroy
  then show ?thesis by (simp add: destroy_def split: option.splits)
next
  case (DoSend ty p data)
  with send_observed[of ty p data s] show ?thesis by auto
next
  case (DoRegister nm ty u)
  then show ?thesis by (simp add: registerHandler_def)
next
  case DoOnError
  then show ?thesis by (simp add: on_error_listener_def)
next
  case DoOffError
  then show ?thesis by (simp add: off_error_listener_def)
qed

lemma step_options:
  "backoff (step E i s) = backoff s
   \<and> autoReconnect (opts (step E i s)) = autoReconnect (opts s)
   \<and> opt_name (opts (step E i s)) = opt_name (opts s)"
proof (cases i)
  case DoConnect
  then show ?thesis
    by (simp add: connect_begin_def connect_socket_def Let_def backoff_def fun_eq_iff)
next
  case (TokenSettled k r)
  then show ?thesis
    by (simp add: connect_token_def connect_socket_def Let_def backoff_def fun_eq_iff)
next
  case (SockOpen k)
  show ?thesis
  proof (cases "if k < length (tasks s) then tasks s ! k else Done")
    case (AwaitOpen n)
    let ?s0 = "observe (Opened k n) (socket_opened n s)"
    obtain p s1 where c: "send Call ''auth/login'' (Some (login_payload s)) ?s0 = (p, s1)"
      by (cases "send Call ''auth/login'' (Some (login_payload s)) ?s0") auto
    with send_observed[of Call "''auth/login''" "Some (login_payload s)" ?s0]
    have "opts s1 = opts s" by (simp add: observe_def socket_opened_def)
    with SockOpen AwaitOpen c show ?thesis
      by (simp add: connect_open_def call_def backoff_def fun_eq_iff)
  qed (simp_all add: SockOpen connect_open_def)
next
  case (LoginSettled k)
  then show ?thesis
    by (simp add: connect_login_def emit_def observe_def backoff_def fun_eq_iff
             split: task.splits settlement.splits)
next
  case (SockMessage n data)
  with handle_observed[of E "parseJSON E data JNull" s] show ?thesis
    by (simp add: on_message_def Let_def backoff_def fun_eq_iff)
next
  case (SockError n err)
  then show ?thesis by (simp add: on_error_def emit_def observe_def backoff_def fun_eq_iff)
next
  case (SockClose n code)
  then show ?thesis
    by (simp add: on_close_def setTimeout_def emit_def observe_def Let_def backoff_def
          fun_eq_iff socket_closed_def)
next
  case (TimerFire j)
  then show ?thesis
    by (simp add: timer_fire_def connect_begin_def connect_socket_def Let_def backoff_def
          fun_eq_iff)
next
  case DoDestroy
  then show ?thesis by (simp add: destroy_def backoff_def fun_eq_iff split: option.splits)
next
  case (DoSend ty p data)
  with send_observed[of ty p data s] show ?thesis by (simp add: backoff_def fun_eq_iff)
next
  case (DoRegister nm ty u)
  then show ?thesis by (simp add: registerHandler_def backoff_def fun_eq_iff)
next
  case DoOnError
  then show ?thesis by (simp add: on_error_listener_def backoff_def fun_eq_iff)
next
  case DoOffError
  then show ?thesis by (simp add: off_error_listener_def backoff_def fun_eq_iff)
qed

subsection \<open>The backoff invariant\<close>

lemma backoff_step:
  assumes ok: "closures (trace s) = reconnectTries s
               \<and> retry_delays (trace s) = map (backoff s) [1..<Suc (reconnectTries s)]"
    and auto: "autoReconnect (opts s)"
  shows "closures (trace (step E i s)) = reconnectTries (step E i s)
     \<and> retry_delays (trace (step E i s))
         = map (backoff (step E i s)) [1..<Suc (reconnectTries (step E i s))]"
proof -
  let ?s' = "step E i s"
  let ?acc = "since_connect [] (trace s)"
  from step_options[of E i s] have b: "backoff ?s' = backoff s" by simp
  from ok have c: "length (filter is_closure ?acc) = reconnectTries s"
    and d: "concat (map delay_of ?acc) = map (backoff s) [1..<Suc (reconnectTries s)]"
    by (simp_all add: closures_def retry_delays_def)
  from step_observed[of E i s] show ?thesis
  proof (elim disjE exE conjE)
    fix ext
    assume q: "trace ?s' = trace s @ ext" "list_all quiet ext"
      "reconnectTries ?s' = reconnectTries s"
    then have "since_connect [] (trace ?s') = ?acc @ ext"
      by (simp add: since_connect_append since_connect_quiet)
    with q c d b show ?thesis
      by (simp add: closures_def retry_delays_def quiet_delays quiet_closures)
  next
    fix n code
    assume cl: "trace ?s'
        = trace s @ [Emitted (EvClose code), Scheduled (backoff s (Suc (reconnectTries s)))]"
      "reconnectTries ?s' = Suc (reconnectTries s)"
    then have "since_connect [] (trace ?s')
        = ?acc @ [Emitted (EvClose code), Scheduled (backoff s (Suc (reconnectTries s)))]"
      by (simp add: since_connect_append)
    with cl c d b show ?thesis
      by (simp add: closures_def retry_delays_def)
  next
    fix n code
    assume "\<not> autoReconnect (opts s)"
    with auto show ?thesis by simp
  next
    fix k p v
    assume op: "trace ?s' = trace s @ [Emitted EvConnect]" "reconnectTries ?s' = 0"
    then have "since_connect [] (trace ?s') = []"
      by (simp add: since_connect_append)
    with op show ?thesis by (simp add: closures_def retry_delays_def)
  qed
qed

lemma run_options:
  "backoff (run E ins s) = backoff s
   \<and> autoReconnect (opts (run E ins s)) = autoReconnect (opts s)
   \<and> opt_name (opts (run E ins s)) = opt_name (opts s)"
  by (induction ins arbitrary: s) (simp_all add: step_options)

lemma backoff_run:
  "closures (trace s) = reconnectTries s
     \<and> retry_delays (trace s) = map (backoff s) [1..<Suc (reconnectTries s)] \<Longrightarrow>
   autoReconnect (opts s) \<Longrightarrow>
   closures (trace (run E ins s)) = reconnectTries (run E ins s)
     \<and> retry_delays (trace (run E ins s))
         = map (backoff (run E ins s)) [1..<Suc (reconnectTries (run E ins s))]"
proof (induction ins arbitrary: s)
  case Nil
  then show ?case by simp
next
  case (Cons i ins)
  from backoff_step[OF Cons.prems, of E i] step_options[of E i s] Cons.prems(2)
  show ?case by (simp add: Cons.IH)
qed

subsection \<open>Linear backoff\<close>

text \<open>
  C4. In a session with auto-reconnect enabled, in whatever state it has reached: the
  number of closures since the last \<^verbatim>\<open>connect\<close> event is the value of the retry
  counter, and the timeouts scheduled since then have the delays
  \<open>1 * interval * multiplier\<close>, \<open>2 * interval * multiplier\<close>, and so on up to the
  counter; the closure of a socket increments the counter and schedules one timeout whose
  delay is the new counter times interval times multiplier; and the end of a \<^verbatim>\<open>connect\<close>
  whose login call was resolved sets the counter to 0, so that the next closure waits
  \<open>1 * interval * multiplier\<close> again.
\<close>

theorem reconnect_backoff_is_linear:
  assumes "s = run E ins (new_Client sid u)" and "autoReconnect (opts s)"
  shows "closures (trace s) = reconnectTries s
    \<and> retry_delays (trace s) = map (backoff s) [1..<Suc (reconnectTries s)]
    \<and> (\<forall>n code. n < length (sockets s) \<longrightarrow>
          reconnectTries (step E (SockClose n code) s) = Suc (reconnectTries s)
          \<and> timers (step E (SockClose n code) s)
              = timers s @ [backoff s (Suc (reconnectTries s))]
          \<and> trace (step E (SockClose n code) s)
              = trace s @ [Emitted (EvClose code), Scheduled (backoff s (Suc (reconnectTries s)))])
    \<and> (\<forall>k p v. k < length (tasks s) \<longrightarrow> tasks s ! k = AwaitLogin p \<longrightarrow>
          p < length (promises s) \<longrightarrow> promises s ! p = Resolved v \<longrightarrow>
            reconnectTries (step E (LoginSettled k) s) = 0
            \<and> trace (step E (LoginSettled k) s) = trace s @ [Emitted EvConnect]
            \<and> retry_delays (trace (step E (LoginSettled k) s)) = [])"
proof -
  let ?s0 = "new_Client sid u"
  have init: "closures (trace ?s0) = reconnectTries ?s0
     \<and> retry_delays (trace ?s0) = map (backoff ?s0) [1..<Suc (reconnectTries ?s0)]"
    by (simp add: new_Client_def closures_def retry_delays_def)
  from assms run_options[of E ins ?s0] have auto0: "autoReconnect (opts ?s0)" by simp
  from backoff_run[OF init auto0, of E ins] assms(1)
  have a: "closures (trace s) = reconnectTries s"
    and a': "retry_delays (trace s) = map (backoff s) [1..<Suc (reconnectTries s)]"
    by simp_all
  have b: "\<forall>n code. n < length (sockets s) \<longrightarrow>
          reconnectTries (step E (SockClose n code) s) = Suc (reconnectTries s)
          \<and> timers (step E (SockClose n code) s)
              = timers s @ [backoff s (Suc (reconnectTries s))]
          \<and> trace (step E (SockClose n code) s)
              = trace s @ [Emitted (EvClose code), Scheduled (backoff s (Suc (reconnectTries s)))]"
    using assms(2)
    by (simp add: on_close_def setTimeout_def emit_def observe_def Let_def backoff_def
          socket_closed_def)
  have c: "\<forall>k p v. k < length (tasks s) \<longrightarrow> tasks s ! k = AwaitLogin p \<longrightarrow>
          p < length (promises s) \<longrightarrow> promises s ! p = Resolved v \<longrightarrow>
            reconnectTries (step E (LoginSettled k) s) = 0
            \<and> trace (step E (LoginSettled k) s) = trace s @ [Emitted EvConnect]
            \<and> retry_delays (trace (step E (LoginSettled k) s)) = []"
    by (simp add: connect_login_def emit_def observe_def retry_delays_def since_connect_append)
  show ?thesis by (rule conjI[OF a conjI[OF a' conjI[OF b c]]])
qed

theorem reconnect_backoff_is_linear_witness:
  "autoReconnect (opts dropping)
   \<and> reconnectTries dropping = 2
   \<and> closures (trace dropping) = 2
   \<and> retry_delays (trace dropping) = [2000, 4000]"
proof -
  have reach: \<open>dropping =
     run scenario_env
       [DoConnect, TokenSettled 0 None, SockOpen 0,
        SockMessage 0 ''{"t":"callback","i":"c-0","d":{}}'', LoginSettled 0,
        SockClose 0 1006, TimerFire 0, TokenSettled 1 None, SockClose 1 1006]
       (new_Client ''c'' scenario_options)\<close>
    by (simp add: dropping_def connected_def)
  have ev: "autoReconnect (opts dropping)" "reconnectTries dropping = 2"
    "backoff dropping 1 = 2000" "backoff dropping 2 = 4000"
    by (simp_all add: dropping_def scenario_defs model_defs backoff_def Let_def)
  have u: "[1..<Suc 2] = [1, 2]" by (simp add: upt_rec)
  from reconnect_backoff_is_linear [OF reach ev(1)] ev u
  have "closures (trace dropping) = 2" and "retry_delays (trace dropping) = [2000, 4000]"
    by simp_all
  with ev show ?thesis by simp
qed

section \<open>The login handshake\<close>

subsection \<open>What a step does to sockets, tasks and promises\<close>

lemma is_login_step: "is_login (step E i s) pd = is_login s pd"
  using step_options[of E i s] by (simp add: is_login_def login_payload_def)

lemma trace_step_mono: "set (trace s) \<subseteq> set (trace (step E i s))"
  using step_observed[of E i s] by auto

lemma settle_handler_frame:
  "sockets (state_of (settle_handler p pkt s)) = sockets s
   \<and> length (promises (state_of (settle_handler p pkt s))) = length (promises s)
   \<and> (\<forall>q<length (promises s). \<forall>v.
         promises (state_of (settle_handler p pkt s)) ! q = Resolved v \<longrightarrow>
         promises s ! q = Resolved v \<or> (p = q \<and> get_prop pkt ''d'' = v))"
  by (auto simp: settle_handler_def resolve_def reject_def settle_def nth_list_update
        split: option.splits json.splits if_splits)

lemma invoke_frame:
  "sockets (state_of (invoke E h pkt s)) = sockets s
   \<and> length (promises (state_of (invoke E h pkt s))) = length (promises s)
   \<and> (\<forall>q<length (promises s). \<forall>v.
         promises (state_of (invoke E h pkt s)) ! q = Resolved v \<longrightarrow>
         promises s ! q = Resolved v \<or> (handler h = Settle q \<and> get_prop pkt ''d'' = v))"
proof (cases "handler h")
  case (Settle p)
  with settle_handler_frame[of p pkt "observe (Invoked (Settle p) pkt) s"] show ?thesis
    by (simp add: invoke_def observe_def)
next
  case (User u)
  then show ?thesis by (simp add: invoke_def Let_def observe_def split: option.splits)
qed

lemma plain_step_refl: "plain_step s s"
  by (simp add: plain_step_def)

lemma plain_step_timers: "plain_step s (s\<lparr>timers := t\<rparr>)"
  by (simp add: plain_step_def)

lemma nth_list_update_if: "n < length xs \<Longrightarrow> xs[m := y] ! n = (if m = n then y else xs ! n)"
  by (cases "m = n") simp_all

lemma handle_kind:
  "(plain_step s (state_of (handle E pkt s)) \<or> dispatch_step E s (state_of (handle E pkt s)))
   \<and> sockets (state_of (handle E pkt s)) = sockets s"
proof -
  let ?s' = "state_of (handle E pkt s)"
  obtain h index where hi:
    "(if get_prop pkt ''t'' = Some (JStr ''callback'')
         then (let h = findHandler (handlers s) (Some (JStr (String E (get_prop pkt ''i''))))
                         (Some (JStr ''callback''))
               in (h, case h of None \<Rightarrow> - 1 | Some x \<Rightarrow> indexOf (handlers s) x))
         else (findHandler (handlers s) (get_prop pkt ''n'') (get_prop pkt ''t''), - 1))
     = (h, index)"
    by (metis surj_pair)
  show ?thesis
  proof (cases h)
    case None
    with hi have "handle E pkt s = emit (EvError InvalidPacket) s"
      by (simp add: handle_def)
    then show ?thesis by (simp add: emit_def observe_def plain_step_def)
  next
    case (Some x)
    from hi Some have mem: "x \<in> set (handlers s)" and dx: "dispatched E pkt x"
      by (auto simp: dispatched_def Let_def dest: findHandler_Some split: if_splits)
    have st: "?s' = state_of (invoke E x pkt s)
        \<or> (\<exists>j. ?s' = (state_of (invoke E x pkt s))
                        \<lparr>handlers := splice_at (handlers (state_of (invoke E x pkt s))) j\<rparr>)"
      using hi Some by (cases "invoke E x pkt s") (auto simp: handle_def)
    have sub: "\<And>j. set (splice_at (handlers s) j) \<subseteq> set (handlers s)"
      by (auto simp: splice_at_def dest: in_set_takeD in_set_dropD)
    from invoke_observed[of E x pkt s] invoke_frame[of E x pkt s] handlers_invoke[of E x pkt s]
    have iv: "trace (state_of (invoke E x pkt s)) = trace s @ [Invoked (handler x) pkt]"
      "tasks (state_of (invoke E x pkt s)) = tasks s"
      "sockets (state_of (invoke E x pkt s)) = sockets s"
      "length (promises (state_of (invoke E x pkt s))) = length (promises s)"
      "\<forall>q<length (promises s). \<forall>v.
         promises (state_of (invoke E x pkt s)) ! q = Resolved v \<longrightarrow>
         promises s ! q = Resolved v \<or> (handler x = Settle q \<and> get_prop pkt ''d'' = v)"
      "handlers (state_of (invoke E x pkt s)) = handlers s"
      by simp_all
    from st have "dispatch_step E s ?s'"
    proof
      assume e: "?s' = state_of (invoke E x pkt s)"
      show ?thesis unfolding dispatch_step_def e using mem dx iv by auto
    next
      assume "\<exists>j. ?s' = (state_of (invoke E x pkt s))
                        \<lparr>handlers := splice_at (handlers (state_of (invoke E x pkt s))) j\<rparr>"
      then obtain j where e: "?s' = (state_of (invoke E x pkt s))
                        \<lparr>handlers := splice_at (handlers (state_of (invoke E x pkt s))) j\<rparr>"
        by blast
      show ?thesis unfolding dispatch_step_def e using mem dx iv sub[of j] by auto
    qed
    moreover from st iv have "sockets ?s' = sockets s" by auto
    ultimately show ?thesis by simp
  qed
qed

lemma send_requested:
  "\<exists>pd. trace (snd (send ty p data s)) = trace s @ [Requested (length (promises s)) pd]
        \<and> requested pd s (snd (send ty p data s))
        \<and> pd_s pd = Some (service_of p) \<and> pd_n pd = Some (action_of p) \<and> pd_t pd = ty
        \<and> pd_d pd = data"
  by (simp add: send_def Let_def write_pd_def observe_def reject_def settle_def requested_def
        nth_append split: option.splits)

lemma send_sockets:
  "length (sockets (snd (send ty p data s))) = length (sockets s)
   \<and> (\<forall>n<length (sockets s).
         creator (sockets (snd (send ty p data s)) ! n) = creator (sockets s ! n))"
  by (auto simp: send_def Let_def write_pd_def observe_def reject_def settle_def socket_send_def
        nth_list_update_if split: option.splits)

lemma connect_begin_plain:
  assumes "trace s1 = trace s" "promises s1 = promises s" "handlers s1 = handlers s"
    "tasks s1 = tasks s" "sockets s1 = sockets s"
  shows "plain_step s (connect_begin s1)"
  using assms
  by (auto simp: connect_begin_def connect_socket_def plain_step_def Let_def nth_append
        nth_list_update split: if_splits)

lemma connect_begin_sockets:
  "length (sockets s) \<le> length (sockets (connect_begin s))
   \<and> (\<forall>n<length (sockets s). creator (sockets (connect_begin s) ! n) = creator (sockets s ! n))"
  by (simp add: connect_begin_def connect_socket_def Let_def nth_append)

text \<open>Sockets are never discarded and keep their creator.\<close>

lemma step_sockets:
  "length (sockets s) \<le> length (sockets (step E i s))
   \<and> (\<forall>n<length (sockets s). creator (sockets (step E i s) ! n) = creator (sockets s ! n))"
proof (cases i)
  case DoConnect
  with connect_begin_sockets[of s] show ?thesis by simp
next
  case (TokenSettled k r)
  then show ?thesis
    by (simp add: connect_token_def connect_socket_def Let_def nth_append)
next
  case (SockOpen k)
  show ?thesis
  proof (cases "if k < length (tasks s) then tasks s ! k else Done")
    case (AwaitOpen n)
    let ?s0 = "observe (Opened k n) (socket_opened n s)"
    obtain p s1 where c: "send Call ''auth/login'' (Some (login_payload s)) ?s0 = (p, s1)"
      by (cases "send Call ''auth/login'' (Some (login_payload s)) ?s0") auto
    with send_sockets[of Call "''auth/login''" "Some (login_payload s)" ?s0]
    have "length (sockets s1) = length (sockets s)"
      and "\<forall>m<length (sockets s). creator (sockets s1 ! m) = creator (sockets s ! m)"
      by (auto simp: observe_def socket_opened_def nth_list_update_if)
    with SockOpen AwaitOpen c show ?thesis by (simp add: connect_open_def call_def)
  qed (simp_all add: SockOpen connect_open_def)
next
  case (LoginSettled k)
  then show ?thesis
    by (simp add: connect_login_def emit_def observe_def split: task.splits settlement.splits)
next
  case (SockMessage n data)
  with handle_kind[of s E "parseJSON E data JNull"] show ?thesis
    by (simp add: on_message_def Let_def)
next
  case (SockError n err)
  then show ?thesis by (simp add: on_error_def emit_def observe_def)
next
  case (SockClose n code)
  then show ?thesis
    by (simp add: on_close_def setTimeout_def emit_def observe_def Let_def socket_closed_def
          nth_list_update_if)
next
  case (TimerFire j)
  with connect_begin_sockets[of "s\<lparr>timers := splice_at (timers s) j\<rparr>"] show ?thesis
    by (simp add: timer_fire_def Let_def)
next
  case DoDestroy
  then show ?thesis
    by (simp add: destroy_def socket_close_def nth_list_update_if split: option.splits)
next
  case (DoSend ty p data)
  with send_sockets[of ty p data s] show ?thesis by simp
next
  case (DoRegister nm ty u)
  then show ?thesis by (simp add: registerHandler_def)
next
  case DoOnError
  then show ?thesis by (simp add: on_error_listener_def)
next
  case DoOffError
  then show ?thesis by (simp add: off_error_listener_def)
qed

text \<open>Every step is of one of the four kinds.\<close>

lemma step_kind:
  "plain_step s (step E i s) \<or> dispatch_step E s (step E i s) \<or> send_step s (step E i s)
   \<or> login_step s (step E i s)"
proof (cases i)
  case DoConnect
  then show ?thesis by (simp add: connect_begin_plain)
next
  case (TokenSettled k r)
  then have "plain_step s (step E i s)"
    by (auto simp: connect_token_def connect_socket_def plain_step_def Let_def nth_append
          nth_list_update split: if_splits)
  then show ?thesis by simp
next
  case (SockOpen k)
  show ?thesis
  proof (cases "if k < length (tasks s) then tasks s ! k else Done")
    case (AwaitOpen n)
    then have k: "k < length (tasks s)" "tasks s ! k = AwaitOpen n"
      by (simp_all split: if_splits)
    let ?s0 = "observe (Opened k n) (socket_opened n s)"
    obtain p s1 where c: "send Call ''auth/login'' (Some (login_payload s)) ?s0 = (p, s1)"
      by (cases "send Call ''auth/login'' (Some (login_payload s)) ?s0") auto
    from send_requested[of Call "''auth/login''" "Some (login_payload s)" ?s0] c
    obtain pd where tr: "trace s1 = trace s @ [Opened k n, Requested (length (promises s)) pd]"
      and rq: "requested pd ?s0 s1" and lg: "is_login s pd"
      by (auto simp: observe_def socket_opened_def is_login_def service_of_def action_of_def)
    from send_observed[of Call "''auth/login''" "Some (login_payload s)" ?s0] c
    have p: "p = length (promises s)" and ts: "tasks s1 = tasks s"
      by (simp_all add: observe_def socket_opened_def)
    from rq have rq': "requested pd s (s1\<lparr>tasks := (tasks s1)[k := AwaitLogin p]\<rparr>)"
      by (simp add: requested_def observe_def socket_opened_def)
    from SockOpen AwaitOpen c
    have st: "step E i s = s1\<lparr>tasks := (tasks s1)[k := AwaitLogin p]\<rparr>"
      by (simp add: connect_open_def call_def)
    have "login_step s (step E i s)"
      unfolding login_step_def st using k tr rq' lg p ts by auto
    then show ?thesis by simp
  qed (simp_all add: SockOpen connect_open_def plain_step_refl)
next
  case (LoginSettled k)
  then have "plain_step s (step E i s)"
    by (auto simp: connect_login_def emit_def observe_def plain_step_def nth_list_update
          split: task.splits settlement.splits if_splits)
  then show ?thesis by simp
next
  case (SockMessage n data)
  with handle_kind[of s E "parseJSON E data JNull"] show ?thesis
    by (auto simp: on_message_def Let_def plain_step_refl)
next
  case (SockError n err)
  then have "plain_step s (step E i s)"
    by (simp add: on_error_def emit_def observe_def plain_step_def)
  then show ?thesis by simp
next
  case (SockClose n code)
  then have "plain_step s (step E i s)"
    by (simp add: on_close_def setTimeout_def emit_def observe_def Let_def socket_closed_def
          plain_step_def)
  then show ?thesis by simp
next
  case (TimerFire j)
  then have "plain_step s (step E i s)"
    by (simp add: timer_fire_def Let_def connect_begin_plain plain_step_refl plain_step_timers)
  then show ?thesis by simp
next
  case DoDestroy
  then have "plain_step s (step E i s)"
    by (simp add: destroy_def plain_step_def split: option.splits)
  then show ?thesis by simp
next
  case (DoSend ty p data)
  from send_requested[of ty p data s] send_observed[of ty p data s]
  have "send_step s (snd (send ty p data s))" unfolding send_step_def by blast
  with DoSend show ?thesis by simp
next
  case (DoRegister nm ty u)
  then have "plain_step s (step E i s)"
    by (auto simp: registerHandler_def plain_step_def)
  then show ?thesis by simp
next
  case DoOnError
  then show ?thesis by (simp add: on_error_listener_def plain_step_def)
next
  case DoOffError
  then show ?thesis by (simp add: off_error_listener_def plain_step_def)
qed

subsection \<open>The handshake invariant\<close>

lemma dispatched_answers:
  assumes "dispatched E pkt h" and "type h = Callback"
  shows "answers E (name h) pkt"
proof (cases "get_prop pkt ''t'' = Some (JStr ''callback'')")
  case True
  with assms show ?thesis by (auto simp: dispatched_def matches_def answers_def)
next
  case False
  with assms have "Some (JStr (name h)) = get_prop pkt ''n''"
    and "\<not> truthy (get_prop pkt ''t'') \<or> Some (JStr ''callback'') = get_prop pkt ''t''"
    by (simp_all add: dispatched_def matches_def)
  with False show ?thesis by (auto simp: answers_def)
qed

lemma transport_ok_step:
  assumes ok: "transport_ok s"
  shows "transport_ok (step E i s)"
proof -
  let ?s' = "step E i s"
  from ok have wait: "\<And>k n. k < length (tasks s) \<Longrightarrow> tasks s ! k = AwaitOpen n \<Longrightarrow>
        n < length (sockets s) \<and> creator (sockets s ! n) = k"
    and seen: "\<And>k n. Opened k n \<in> set (trace s) \<Longrightarrow>
        n < length (sockets s) \<and> creator (sockets s ! n) = k"
    by (auto simp: transport_ok_def)
  from step_sockets[of s E i]
  have keep: "\<And>k n. n < length (sockets s) \<and> creator (sockets s ! n) = k \<Longrightarrow>
        n < length (sockets ?s') \<and> creator (sockets ?s' ! n) = k"
    by auto
  have "(\<forall>k<length (tasks ?s'). \<forall>n. tasks ?s' ! k = AwaitOpen n \<longrightarrow>
            n < length (sockets ?s') \<and> creator (sockets ?s' ! n) = k)
        \<and> (\<forall>k n. Opened k n \<in> set (trace ?s') \<longrightarrow>
            n < length (sockets ?s') \<and> creator (sockets ?s' ! n) = k)"
    using step_kind[of s E i]
  proof (elim disjE)
    assume p: "plain_step s ?s'"
    then obtain ext where ext: "trace ?s' = trace s @ ext" "list_all emission ext"
      by (auto simp: plain_step_def)
    have a: "\<forall>k<length (tasks ?s'). \<forall>n. tasks ?s' ! k = AwaitOpen n \<longrightarrow>
            n < length (sockets ?s') \<and> creator (sockets ?s' ! n) = k"
    proof (intro allI impI)
      fix k n
      assume "k < length (tasks ?s')" "tasks ?s' ! k = AwaitOpen n"
      with p have "(k < length (tasks s) \<and> tasks s ! k = AwaitOpen n)
          \<or> (length (sockets s) \<le> n \<and> n < length (sockets ?s')
              \<and> creator (sockets ?s' ! n) = k)"
        by (simp add: plain_step_def)
      with wait[of k n] keep[of n k]
      show "n < length (sockets ?s') \<and> creator (sockets ?s' ! n) = k" by blast
    qed
    have b: "\<forall>k n. Opened k n \<in> set (trace ?s') \<longrightarrow>
            n < length (sockets ?s') \<and> creator (sockets ?s' ! n) = k"
    proof (intro allI impI)
      fix k n
      assume "Opened k n \<in> set (trace ?s')"
      with ext have "Opened k n \<in> set (trace s)" by (auto simp: list_all_iff)
      with seen[of k n] keep[of n k]
      show "n < length (sockets ?s') \<and> creator (sockets ?s' ! n) = k" by blast
    qed
    from a b show ?thesis by simp
  next
    assume d: "dispatch_step E s ?s'"
    then have ts: "tasks ?s' = tasks s" by (simp add: dispatch_step_def)
    from d have "\<And>k n. Opened k n \<in> set (trace ?s') \<Longrightarrow> Opened k n \<in> set (trace s)"
      by (auto simp: dispatch_step_def)
    with ts wait seen keep show ?thesis by metis
  next
    assume d: "send_step s ?s'"
    then have ts: "tasks ?s' = tasks s" by (simp add: send_step_def)
    from d have "\<And>k n. Opened k n \<in> set (trace ?s') \<Longrightarrow> Opened k n \<in> set (trace s)"
      by (auto simp: send_step_def)
    with ts wait seen keep show ?thesis by metis
  next
    assume "login_step s ?s'"
    then obtain k0 n0 pd where k0: "k0 < length (tasks s)" "tasks s ! k0 = AwaitOpen n0"
      and ts: "tasks ?s' = (tasks s)[k0 := AwaitLogin (length (promises s))]"
      and tr: "trace ?s' = trace s @ [Opened k0 n0, Requested (length (promises s)) pd]"
      by (auto simp: login_step_def)
    have a: "\<forall>k<length (tasks ?s'). \<forall>n. tasks ?s' ! k = AwaitOpen n \<longrightarrow>
            n < length (sockets ?s') \<and> creator (sockets ?s' ! n) = k"
    proof (intro allI impI)
      fix k n
      assume "k < length (tasks ?s')" "tasks ?s' ! k = AwaitOpen n"
      with ts have "k < length (tasks s) \<and> tasks s ! k = AwaitOpen n"
        by (cases "k = k0") simp_all
      with wait[of k n] keep[of n k]
      show "n < length (sockets ?s') \<and> creator (sockets ?s' ! n) = k" by blast
    qed
    have b: "\<forall>k n. Opened k n \<in> set (trace ?s') \<longrightarrow>
            n < length (sockets ?s') \<and> creator (sockets ?s' ! n) = k"
    proof (intro allI impI)
      fix k n
      assume "Opened k n \<in> set (trace ?s')"
      with tr have "Opened k n \<in> set (trace s) \<or> (k = k0 \<and> n = n0)" by auto
      with seen[of k n] wait[OF k0] keep[of n k]
      show "n < length (sockets ?s') \<and> creator (sockets ?s' ! n) = k" by blast
    qed
    from a b show ?thesis by simp
  qed
  then show ?thesis by (simp add: transport_ok_def)
qed

lemma login_ok_step:
  assumes ok: "login_ok s"
  shows "login_ok (step E i s)"
proof -
  let ?s' = "step E i s"
  note mono = trace_step_mono[of s E i]
  note lg = is_login_step[of E i s]
  from ok have old: "\<And>k p. k < length (tasks s) \<Longrightarrow> tasks s ! k = AwaitLogin p \<Longrightarrow>
        (\<exists>n. Opened k n \<in> set (trace s))
        \<and> (\<exists>pd. Requested p pd \<in> set (trace s) \<and> is_login s pd)"
    by (auto simp: login_ok_def)
  have kept: "\<And>k p. k < length (tasks s) \<Longrightarrow> tasks s ! k = AwaitLogin p \<Longrightarrow>
        (\<exists>n. Opened k n \<in> set (trace ?s'))
        \<and> (\<exists>pd. Requested p pd \<in> set (trace ?s') \<and> is_login ?s' pd)"
    using old mono lg by blast
  have "\<forall>k<length (tasks ?s'). \<forall>p. tasks ?s' ! k = AwaitLogin p \<longrightarrow>
        (\<exists>n. Opened k n \<in> set (trace ?s'))
        \<and> (\<exists>pd. Requested p pd \<in> set (trace ?s') \<and> is_login ?s' pd)"
    using step_kind[of s E i]
  proof (elim disjE)
    assume "plain_step s ?s'"
    then have "\<forall>k<length (tasks ?s'). \<forall>p. tasks ?s' ! k = AwaitLogin p \<longrightarrow>
          k < length (tasks s) \<and> tasks s ! k = AwaitLogin p"
      by (simp add: plain_step_def)
    with kept show ?thesis by blast
  next
    assume "dispatch_step E s ?s'"
    then have "tasks ?s' = tasks s" by (simp add: dispatch_step_def)
    with kept show ?thesis by simp
  next
    assume "send_step s ?s'"
    then have "tasks ?s' = tasks s" by (simp add: send_step_def)
    with kept show ?thesis by simp
  next
    assume "login_step s ?s'"
    then obtain k0 n0 pd where k0: "k0 < length (tasks s)"
      and ts: "tasks ?s' = (tasks s)[k0 := AwaitLogin (length (promises s))]"
      and pd: "is_login s pd"
      and tr: "trace ?s' = trace s @ [Opened k0 n0, Requested (length (promises s)) pd]"
      by (auto simp: login_step_def)
    show ?thesis
    proof (intro allI impI)
      fix k p
      assume k: "k < length (tasks ?s')" and t: "tasks ?s' ! k = AwaitLogin p"
      show "(\<exists>n. Opened k n \<in> set (trace ?s'))
        \<and> (\<exists>pd. Requested p pd \<in> set (trace ?s') \<and> is_login ?s' pd)"
      proof (cases "k = k0")
        case True
        with k t ts have "p = length (promises s)" by simp
        with True tr pd lg show ?thesis by auto
      next
        case False
        with k t ts have "k < length (tasks s)" "tasks s ! k = AwaitLogin p" by simp_all
        then show ?thesis by (rule kept)
      qed
    qed
  qed
  then show ?thesis by (simp add: login_ok_def)
qed

lemma requested_replies:
  assumes ok: "replies_ok E s"
    and tr: "trace s' = trace s @ pre @ [Requested (length (promises s)) pd]"
    and pre: "\<forall>x\<in>set pre. \<exists>k n. x = Opened k n"
    and rq: "requested pd s s'"
  shows "replies_ok E s'"
proof -
  from ok have res: "\<And>p v. p < length (promises s) \<Longrightarrow> promises s ! p = Resolved v \<Longrightarrow>
        (\<exists>pkt. Invoked (Settle p) pkt \<in> set (trace s) \<and> get_prop pkt ''d'' = v)"
    and reg: "\<And>h p. h \<in> set (handlers s) \<Longrightarrow> handler h = Settle p \<Longrightarrow>
        type h = Callback \<and> (\<exists>pd. Requested p pd \<in> set (trace s) \<and> pd_i pd = name h)"
    and inv: "\<And>p pkt. Invoked (Settle p) pkt \<in> set (trace s) \<Longrightarrow>
        (\<exists>pd. Requested p pd \<in> set (trace s) \<and> answers E (pd_i pd) pkt)"
    and bound: "\<And>p pd. Requested p pd \<in> set (trace s) \<Longrightarrow> p < length (promises s)"
    and uniq: "\<And>p pd pd'. Requested p pd \<in> set (trace s) \<Longrightarrow>
        Requested p pd' \<in> set (trace s) \<Longrightarrow> pd = pd'"
    by (auto simp: replies_ok_def)
  let ?p0 = "length (promises s)"
  from rq have hs: "handlers s' = handlers s @ [\<lparr>name = pd_i pd, type = Callback,
                                                 handler = Settle ?p0\<rparr>]"
    and len: "length (promises s') = Suc ?p0"
    and same: "\<And>q. q < ?p0 \<Longrightarrow> promises s' ! q = promises s ! q"
    and fresh: "\<And>v. promises s' ! ?p0 \<noteq> Resolved v"
    by (simp_all add: requested_def)
  from tr have mono: "set (trace s) \<subseteq> set (trace s')" by auto
  from tr pre have inv_old: "\<And>f pkt. Invoked f pkt \<in> set (trace s') \<Longrightarrow>
        Invoked f pkt \<in> set (trace s)" by auto
  from tr pre have req_new: "\<And>p pd'. Requested p pd' \<in> set (trace s') \<Longrightarrow>
        Requested p pd' \<in> set (trace s) \<or> (p = ?p0 \<and> pd' = pd)" by auto
  from tr have req_in: "Requested ?p0 pd \<in> set (trace s')" by simp
  have a: "\<forall>p<length (promises s'). \<forall>v. promises s' ! p = Resolved v \<longrightarrow>
        (\<exists>pkt. Invoked (Settle p) pkt \<in> set (trace s') \<and> get_prop pkt ''d'' = v)"
  proof (intro allI impI)
    fix p v
    assume p: "p < length (promises s')" and r: "promises s' ! p = Resolved v"
    from p len r fresh have "p < ?p0" by (cases "p = ?p0") auto
    with r same[of p] res[of p v] mono
    show "\<exists>pkt. Invoked (Settle p) pkt \<in> set (trace s') \<and> get_prop pkt ''d'' = v"
      by auto
  qed
  have b: "\<forall>h\<in>set (handlers s'). \<forall>p. handler h = Settle p \<longrightarrow>
          type h = Callback \<and> (\<exists>pd. Requested p pd \<in> set (trace s') \<and> pd_i pd = name h)"
  proof (intro ballI allI impI)
    fix h p
    assume h: "h \<in> set (handlers s')" and hp: "handler h = Settle p"
    from h hs have "h \<in> set (handlers s)
        \<or> h = \<lparr>name = pd_i pd, type = Callback, handler = Settle ?p0\<rparr>" by auto
    then show "type h = Callback
        \<and> (\<exists>pd. Requested p pd \<in> set (trace s') \<and> pd_i pd = name h)"
    proof
      assume "h \<in> set (handlers s)"
      from reg[OF this hp] mono show ?thesis by auto
    next
      assume "h = \<lparr>name = pd_i pd, type = Callback, handler = Settle ?p0\<rparr>"
      with hp req_in show ?thesis by auto
    qed
  qed
  have c: "\<forall>p pkt. Invoked (Settle p) pkt \<in> set (trace s') \<longrightarrow>
          (\<exists>pd. Requested p pd \<in> set (trace s') \<and> answers E (pd_i pd) pkt)"
    using inv_old inv mono by blast
  have d: "\<forall>p pd. Requested p pd \<in> set (trace s') \<longrightarrow> p < length (promises s')"
  proof (intro allI impI)
    fix p pd'
    assume "Requested p pd' \<in> set (trace s')"
    from req_new[OF this] bound[of p pd'] len show "p < length (promises s')" by auto
  qed
  have e: "\<forall>p pd1 pd2. Requested p pd1 \<in> set (trace s') \<longrightarrow>
          Requested p pd2 \<in> set (trace s') \<longrightarrow> pd1 = pd2"
  proof (intro allI impI)
    fix p pd1 pd2
    assume r1: "Requested p pd1 \<in> set (trace s')" and r2: "Requested p pd2 \<in> set (trace s')"
    from req_new[OF r1] req_new[OF r2] bound[of p pd1] bound[of p pd2] uniq[of p pd1 pd2]
    show "pd1 = pd2" by auto
  qed
  from a b c d e show ?thesis by (simp add: replies_ok_def)
qed

lemma replies_ok_step:
  assumes ok: "replies_ok E s"
  shows "replies_ok E (step E i s)"
proof -
  let ?s' = "step E i s"
  note mono = trace_step_mono[of s E i]
  from ok have res: "\<And>p v. p < length (promises s) \<Longrightarrow> promises s ! p = Resolved v \<Longrightarrow>
        (\<exists>pkt. Invoked (Settle p) pkt \<in> set (trace s) \<and> get_prop pkt ''d'' = v)"
    and reg: "\<And>h p. h \<in> set (handlers s) \<Longrightarrow> handler h = Settle p \<Longrightarrow>
        type h = Callback \<and> (\<exists>pd. Requested p pd \<in> set (trace s) \<and> pd_i pd = name h)"
    and inv: "\<And>p pkt. Invoked (Settle p) pkt \<in> set (trace s) \<Longrightarrow>
        (\<exists>pd. Requested p pd \<in> set (trace s) \<and> answers E (pd_i pd) pkt)"
    and bound: "\<And>p pd. Requested p pd \<in> set (trace s) \<Longrightarrow> p < length (promises s)"
    and uniq: "\<And>p pd pd'. Requested p pd \<in> set (trace s) \<Longrightarrow>
        Requested p pd' \<in> set (trace s) \<Longrightarrow> pd = pd'"
    by (auto simp: replies_ok_def)
  from step_kind[of s E i] show ?thesis
  proof (elim disjE)
    assume p: "plain_step s ?s'"
    then obtain ext where ext: "trace ?s' = trace s @ ext" "list_all emission ext"
      and pr: "promises ?s' = promises s"
      and hs: "\<And>h p. h \<in> set (handlers ?s') \<Longrightarrow> handler h = Settle p \<Longrightarrow>
                h \<in> set (handlers s)"
      by (auto simp: plain_step_def)
    from ext have inv_old: "\<And>f pkt. Invoked f pkt \<in> set (trace ?s') \<Longrightarrow>
        Invoked f pkt \<in> set (trace s)"
      and req_old: "\<And>p pd. Requested p pd \<in> set (trace ?s') \<Longrightarrow>
        Requested p pd \<in> set (trace s)"
      by (auto simp: list_all_iff)
    have a: "\<forall>p<length (promises ?s'). \<forall>v. promises ?s' ! p = Resolved v \<longrightarrow>
        (\<exists>pkt. Invoked (Settle p) pkt \<in> set (trace ?s') \<and> get_prop pkt ''d'' = v)"
      using pr res mono by (metis subsetD)
    have b: "\<forall>h\<in>set (handlers ?s'). \<forall>p. handler h = Settle p \<longrightarrow>
          type h = Callback \<and> (\<exists>pd. Requested p pd \<in> set (trace ?s') \<and> pd_i pd = name h)"
      using hs reg mono by (metis subsetD)
    have c: "\<forall>p pkt. Invoked (Settle p) pkt \<in> set (trace ?s') \<longrightarrow>
          (\<exists>pd. Requested p pd \<in> set (trace ?s') \<and> answers E (pd_i pd) pkt)"
      using inv_old inv mono by (metis subsetD)
    have d: "\<forall>p pd. Requested p pd \<in> set (trace ?s') \<longrightarrow> p < length (promises ?s')"
      using req_old bound pr by metis
    have e: "\<forall>p pd1 pd2. Requested p pd1 \<in> set (trace ?s') \<longrightarrow>
          Requested p pd2 \<in> set (trace ?s') \<longrightarrow> pd1 = pd2"
      using req_old uniq by metis
    from a b c d e show ?thesis by (simp add: replies_ok_def)
  next
    assume "dispatch_step E s ?s'"
    then obtain pkt h where h: "h \<in> set (handlers s)" and dh: "dispatched E pkt h"
      and tr: "trace ?s' = trace s @ [Invoked (handler h) pkt]"
      and pr: "\<And>q v. q < length (promises s) \<Longrightarrow> promises ?s' ! q = Resolved v \<Longrightarrow>
             promises s ! q = Resolved v \<or> (handler h = Settle q \<and> get_prop pkt ''d'' = v)"
      and sub: "set (handlers ?s') \<subseteq> set (handlers s)"
      and len: "length (promises ?s') = length (promises s)"
      by (auto simp: dispatch_step_def)
    from tr have req_old: "\<And>p pd. Requested p pd \<in> set (trace ?s') \<Longrightarrow>
        Requested p pd \<in> set (trace s)" by auto
    have a: "\<forall>p<length (promises ?s'). \<forall>v. promises ?s' ! p = Resolved v \<longrightarrow>
        (\<exists>pkt. Invoked (Settle p) pkt \<in> set (trace ?s') \<and> get_prop pkt ''d'' = v)"
    proof (intro allI impI)
      fix p v
      assume "p < length (promises ?s')" and r: "promises ?s' ! p = Resolved v"
      with len have p: "p < length (promises s)" by simp
      from pr[OF p r] show "\<exists>pkt. Invoked (Settle p) pkt \<in> set (trace ?s')
          \<and> get_prop pkt ''d'' = v"
      proof
        assume "promises s ! p = Resolved v"
        from res[OF p this] mono show ?thesis by auto
      next
        assume "handler h = Settle p \<and> get_prop pkt ''d'' = v"
        with tr show ?thesis by auto
      qed
    qed
    have b: "\<forall>h\<in>set (handlers ?s'). \<forall>p. handler h = Settle p \<longrightarrow>
          type h = Callback \<and> (\<exists>pd. Requested p pd \<in> set (trace ?s') \<and> pd_i pd = name h)"
      using sub reg mono by (metis subsetD)
    have c: "\<forall>p pk. Invoked (Settle p) pk \<in> set (trace ?s') \<longrightarrow>
          (\<exists>pd. Requested p pd \<in> set (trace ?s') \<and> answers E (pd_i pd) pk)"
    proof (intro allI impI)
      fix p pk
      assume "Invoked (Settle p) pk \<in> set (trace ?s')"
      with tr have "Invoked (Settle p) pk \<in> set (trace s)
          \<or> (handler h = Settle p \<and> pk = pkt)" by auto
      then show "\<exists>pd. Requested p pd \<in> set (trace ?s') \<and> answers E (pd_i pd) pk"
      proof
        assume "Invoked (Settle p) pk \<in> set (trace s)"
        from inv[OF this] mono show ?thesis by auto
      next
        assume n: "handler h = Settle p \<and> pk = pkt"
        with reg[OF h, of p] obtain pd where ty: "type h = Callback"
          and pd: "Requested p pd \<in> set (trace s)" "pd_i pd = name h" by auto
        from dispatched_answers[OF dh ty] pd n mono show ?thesis by auto
      qed
    qed
    have d: "\<forall>p pd. Requested p pd \<in> set (trace ?s') \<longrightarrow> p < length (promises ?s')"
      using req_old bound len by metis
    have e: "\<forall>p pd1 pd2. Requested p pd1 \<in> set (trace ?s') \<longrightarrow>
          Requested p pd2 \<in> set (trace ?s') \<longrightarrow> pd1 = pd2"
      using req_old uniq by metis
    from a b c d e show ?thesis by (simp add: replies_ok_def)
  next
    assume "send_step s ?s'"
    then obtain pd where "trace ?s' = trace s @ [] @ [Requested (length (promises s)) pd]"
      and "requested pd s ?s'"
      by (auto simp: send_step_def)
    from requested_replies[OF ok this(1) _ this(2)] show ?thesis by simp
  next
    assume "login_step s ?s'"
    then obtain k n pd where
      "trace ?s' = trace s @ [Opened k n] @ [Requested (length (promises s)) pd]"
      and "requested pd s ?s'"
      by (auto simp: login_step_def)
    from requested_replies[OF ok this(1) _ this(2)] show ?thesis by simp
  qed
qed

lemma handshake_ok_run: "handshake_ok E s \<Longrightarrow> handshake_ok E (run E ins s)"
  by (induction ins arbitrary: s)
     (simp_all add: handshake_ok_def transport_ok_step login_ok_step replies_ok_step)

lemma handshake_ok_new: "handshake_ok E (new_Client sid u)"
  by (simp add: handshake_ok_def transport_ok_def login_ok_def replies_ok_def new_Client_def)

subsection \<open>The login handshake\<close>

text \<open>
  C5, as amended. In whatever state a session has reached, a step emits the \<^verbatim>\<open>connect\<close>
  event only if it is the resumption of an invocation \<open>k\<close> of \<^verbatim>\<open>connect\<close> that waits
  for its login call and the promise of that call has been resolved. At that moment the
  socket that this invocation created has reported open to it; the login request (service
  \<^verbatim>\<open>auth\<close>, action \<^verbatim>\<open>login\<close>, payload the configured name) has been sent; and the
  closure of the login call has been invoked on an inbound packet that answers the
  request and whose payload is the value of the promise. The packet is a callback that
  carries the id of the login call or, the lookup ignoring the kind of the entry when the
  kind of the packet is falsy, a packet whose kind is absent or falsy and whose action is
  that id. The step sets the retry counter to 0, and no other step ever lowers the
  counter. Every state of a run being a state the session has reached, this holds of
  every \<^verbatim>\<open>connect\<close> event.
\<close>

theorem connect_waits_for_login_reply:
  assumes "s = run E ins (new_Client sid u)"
  shows "(Emitted EvConnect \<in> set (drop (length (trace s)) (trace (step E i s))) \<longrightarrow>
            (\<exists>k p v n pd pkt.
               i = LoginSettled k \<and> k < length (tasks s) \<and> tasks s ! k = AwaitLogin p
               \<and> p < length (promises s) \<and> promises s ! p = Resolved v
               \<and> Opened k n \<in> set (trace s)
               \<and> n < length (sockets s) \<and> creator (sockets s ! n) = k
               \<and> Requested p pd \<in> set (trace s) \<and> is_login s pd
               \<and> Invoked (Settle p) pkt \<in> set (trace s)
               \<and> answers E (pd_i pd) pkt \<and> get_prop pkt ''d'' = v
               \<and> trace (step E i s) = trace s @ [Emitted EvConnect]
               \<and> reconnectTries (step E i s) = 0))
    \<and> (reconnectTries (step E i s) < reconnectTries s \<longrightarrow>
          Emitted EvConnect \<in> set (drop (length (trace s)) (trace (step E i s))))"
proof -
  let ?s' = "step E i s"
  from assms have ok: "handshake_ok E s" by (simp add: handshake_ok_run handshake_ok_new)
  then have seen: "\<And>k n. Opened k n \<in> set (trace s) \<Longrightarrow>
        n < length (sockets s) \<and> creator (sockets s ! n) = k"
    and tk: "\<And>k p. k < length (tasks s) \<Longrightarrow> tasks s ! k = AwaitLogin p \<Longrightarrow>
        (\<exists>n. Opened k n \<in> set (trace s))
        \<and> (\<exists>pd. Requested p pd \<in> set (trace s) \<and> is_login s pd)"
    and res: "\<And>p v. p < length (promises s) \<Longrightarrow> promises s ! p = Resolved v \<Longrightarrow>
        (\<exists>pkt. Invoked (Settle p) pkt \<in> set (trace s) \<and> get_prop pkt ''d'' = v)"
    and inv: "\<And>p pkt. Invoked (Settle p) pkt \<in> set (trace s) \<Longrightarrow>
        (\<exists>pd. Requested p pd \<in> set (trace s) \<and> answers E (pd_i pd) pkt)"
    and uniq: "\<And>p pd pd'. Requested p pd \<in> set (trace s) \<Longrightarrow>
        Requested p pd' \<in> set (trace s) \<Longrightarrow> pd = pd'"
    by (auto simp: handshake_ok_def transport_ok_def login_ok_def replies_ok_def)
  have a: "Emitted EvConnect \<in> set (drop (length (trace s)) (trace ?s')) \<longrightarrow>
            (\<exists>k p v n pd pkt.
               i = LoginSettled k \<and> k < length (tasks s) \<and> tasks s ! k = AwaitLogin p
               \<and> p < length (promises s) \<and> promises s ! p = Resolved v
               \<and> Opened k n \<in> set (trace s)
               \<and> n < length (sockets s) \<and> creator (sockets s ! n) = k
               \<and> Requested p pd \<in> set (trace s) \<and> is_login s pd
               \<and> Invoked (Settle p) pkt \<in> set (trace s)
               \<and> answers E (pd_i pd) pkt \<and> get_prop pkt ''d'' = v
               \<and> trace ?s' = trace s @ [Emitted EvConnect]
               \<and> reconnectTries ?s' = 0)"
  proof
    assume e: "Emitted EvConnect \<in> set (drop (length (trace s)) (trace ?s'))"
    from step_observed[of E i s]
    show "\<exists>k p v n pd pkt.
               i = LoginSettled k \<and> k < length (tasks s) \<and> tasks s ! k = AwaitLogin p
               \<and> p < length (promises s) \<and> promises s ! p = Resolved v
               \<and> Opened k n \<in> set (trace s)
               \<and> n < length (sockets s) \<and> creator (sockets s ! n) = k
               \<and> Requested p pd \<in> set (trace s) \<and> is_login s pd
               \<and> Invoked (Settle p) pkt \<in> set (trace s)
               \<and> answers E (pd_i pd) pkt \<and> get_prop pkt ''d'' = v
               \<and> trace ?s' = trace s @ [Emitted EvConnect]
               \<and> reconnectTries ?s' = 0"
    proof (elim disjE exE conjE)
      fix ext
      assume "trace ?s' = trace s @ ext" "list_all quiet ext"
      with e show ?thesis by (auto simp: list_all_iff)
    next
      fix n code
      assume "trace ?s'
        = trace s @ [Emitted (EvClose code), Scheduled (backoff s (Suc (reconnectTries s)))]"
      with e show ?thesis by simp
    next
      fix n code
      assume "trace ?s' = trace s @ [Emitted (EvClose code)]"
      with e show ?thesis by simp
    next
      fix k p v
      assume i: "i = LoginSettled k"
        and k: "k < length (tasks s)" "tasks s ! k = AwaitLogin p"
        and p: "p < length (promises s)" "promises s ! p = Resolved v"
        and tr: "trace ?s' = trace s @ [Emitted EvConnect]" and z: "reconnectTries ?s' = 0"
      from tk[OF k] obtain n pd where op: "Opened k n \<in> set (trace s)"
        and rq: "Requested p pd \<in> set (trace s)" and lg: "is_login s pd" by blast
      from res[OF p] obtain pkt where iv: "Invoked (Settle p) pkt \<in> set (trace s)"
        and d: "get_prop pkt ''d'' = v" by blast
      from inv[OF iv] obtain pd' where rq': "Requested p pd' \<in> set (trace s)"
        and an: "answers E (pd_i pd') pkt" by blast
      from uniq[OF rq rq'] an have an': "answers E (pd_i pd) pkt" by simp
      from seen[OF op] have sk: "n < length (sockets s)" "creator (sockets s ! n) = k"
        by simp_all
      from i k p op sk rq lg iv an' d tr z show ?thesis by blast
    qed
  qed
  have b: "reconnectTries ?s' < reconnectTries s \<longrightarrow>
          Emitted EvConnect \<in> set (drop (length (trace s)) (trace ?s'))"
    using step_observed[of E i s] by auto
  show ?thesis by (rule conjI[OF a b])
qed

theorem connect_waits_for_login_reply_witness:
  "Emitted EvConnect
     \<in> set (drop (length (trace answered)) (trace (step scenario_env (LoginSettled 0) answered)))
   \<and> tasks answered ! 0 = AwaitLogin 0
   \<and> promises answered ! 0 = Resolved (Some (JObj []))
   \<and> Opened 0 0 \<in> set (trace answered)
   \<and> creator (sockets answered ! 0) = 0
   \<and> Invoked (Settle 0) (reply ''c-0'' (Some (JObj []))) \<in> set (trace answered)
   \<and> answers scenario_env ''c-0'' (reply ''c-0'' (Some (JObj [])))
   \<and> reconnectTries (step scenario_env (LoginSettled 0) answered) = 0"
proof -
  have e: "Emitted EvConnect
     \<in> set (drop (length (trace answered)) (trace (step scenario_env (LoginSettled 0) answered)))"
    and f: "tasks answered ! 0 = AwaitLogin 0" "promises answered ! 0 = Resolved (Some (JObj []))"
      "Opened 0 0 \<in> set (trace answered)" "creator (sockets answered ! 0) = 0"
      "Invoked (Settle 0) (reply ''c-0'' (Some (JObj []))) \<in> set (trace answered)"
    by (simp_all add: answered_def scenario_defs model_defs Let_def)
  have g: "answers scenario_env ''c-0'' (reply ''c-0'' (Some (JObj [])))"
    by (simp add: answers_def reply_def String_def)
  from connect_waits_for_login_reply [OF answered_def, where i = "LoginSettled 0"] e
  have "reconnectTries (step scenario_env (LoginSettled 0) answered) = 0" by blast
  with e f g show ?thesis by simp
qed

text \<open>
  The claim as it was written has the \<^verbatim>\<open>connect\<close> event wait for the callback of the
  login call. In the session \<^verbatim>\<open>c\<close> the only inbound frame is
  \<^verbatim>\<open>{"n":"c-0","d":{}}\<close>, which has no kind: the lookup by action finds the entry of
  the login call, its closure resolves the call, and \<^verbatim>\<open>connect\<close> is emitted although no
  callback was received.
\<close>

theorem kindless_login_counterexample:
  \<open>trace kindless_login =
     [Opened 0 0,
      Requested 0 \<lparr>pd_s = Some ''auth'', pd_n = Some ''login'', pd_t = Call,
                   pd_d = Some (JObj [(''s'', JStr ''svc'')]), pd_i = ''c-0''\<rparr>,
      Invoked (Settle 0) (JObj [(''n'', JStr ''c-0''), (''d'', JObj [])]),
      Emitted EvConnect]
   \<and> get_prop (JObj [(''n'', JStr ''c-0''), (''d'', JObj [])]) ''t'' = None
   \<and> reconnectTries kindless_login = 0\<close>
  by (simp add: kindless_login_def scenario_defs model_defs Let_def)

end
